theory Spec2Isabelle
  imports Complex_Main "HOL-Library.Sublist"
begin

section \<open>Thrown values\<close>

text \<open>
  A JavaScript \<^verbatim>\<open>throw\<close> may carry any value. The code under study distinguishes
  instances of \<^verbatim>\<open>Error\<close> (which have a \<^verbatim>\<open>message\<close>) from everything else, and
  \<^verbatim>\<open>throw lastError!\<close> on a variable never assigned throws \<^verbatim>\<open>undefined\<close>.
\<close>

datatype thrown =
    JsError string      \<comment> \<open>an instance of Error, with its message\<close>
  | JsValue string      \<comment> \<open>any other thrown value, named by a tag\<close>
  | JsUndefined

section \<open>nonceManager.ts\<close>

subsection \<open>AsyncMutex\<close>

text \<open>
  The queue of the source holds closures that resolve the waiting caller's promise; the
  model names each waiting caller by a number.
\<close>

record AsyncMutex =
  queue :: "nat list"
  locked :: bool

definition new_AsyncMutex :: AsyncMutex where
  "new_AsyncMutex = \<lparr>queue = [], locked = False\<rparr>"

text \<open>\<^verbatim>\<open>lock()\<close> by caller \<open>w\<close>: the flag says whether the promise resolves at once.\<close>

definition lock :: "AsyncMutex \<Rightarrow> nat \<Rightarrow> bool \<times> AsyncMutex" where
  "lock m w =
     (if locked m then (False, m\<lparr>queue := queue m @ [w]\<rparr>)
      else (True, m\<lparr>locked := True\<rparr>))"

text \<open>The \<^verbatim>\<open>unlock\<close> closure: the woken caller, if any, and the mutex afterwards.\<close>

definition unlock :: "AsyncMutex \<Rightarrow> nat option \<times> AsyncMutex" where
  "unlock m =
     (case queue m of
        [] \<Rightarrow> (None, m\<lparr>locked := False\<rparr>)
      | next # rest \<Rightarrow> (Some next, m\<lparr>queue := rest\<rparr>))"

subsection \<open>NonceState and the address table\<close>

text \<open>
  Nonces and clock readings are JavaScript numbers that hold whole numbers; the model has
  them as integers without a bound.
\<close>

record NonceState =
  currentNonce :: "int option"
  lastSyncMs :: int
  mutex :: AsyncMutex

type_synonym address_state = "string \<rightharpoonup> NonceState"

text \<open>
  \<^verbatim>\<open>toLowerCase\<close> on the ASCII letters. Addresses are hexadecimal text; bytes outside
  \<open>A\<close>..\<open>Z\<close> are kept.
\<close>

definition lower_char :: "char \<Rightarrow> char" where
  "lower_char c =
     (case map_of (zip ''ABCDEFGHIJKLMNOPQRSTUVWXYZ'' ''abcdefghijklmnopqrstuvwxyz'') c of
        Some d \<Rightarrow> d
      | None \<Rightarrow> c)"

definition toLowerCase :: "string \<Rightarrow> string" where
  "toLowerCase s = map lower_char s"

definition new_NonceState :: NonceState where
  "new_NonceState = \<lparr>currentNonce = None, lastSyncMs = 0, mutex = new_AsyncMutex\<rparr>"

definition getOrCreateState :: "address_state \<Rightarrow> string \<Rightarrow> NonceState \<times> address_state" where
  "getOrCreateState tbl address =
     (let lower = toLowerCase address in
      case tbl lower of
        Some state \<Rightarrow> (state, tbl)
      | None \<Rightarrow> (new_NonceState, tbl(lower \<mapsto> new_NonceState)))"

subsection \<open>NonceManager\<close>

text \<open>
  How a call ends: it returns, it throws, or it is still suspended in \<^verbatim>\<open>lock()\<close>
  behind the holder of the mutex.
\<close>

datatype 'a completion = Returned 'a | Threw thrown | Suspended

text \<open>
  What a call leaves behind: how it ended, the address table, and the number of
  \<^verbatim>\<open>getTransactionCount\<close> requests it sent.
\<close>

record 'a call =
  ended :: "'a completion"
  table :: address_state
  fetches :: nat

definition needsSync :: "NonceState \<Rightarrow> bool \<Rightarrow> int \<Rightarrow> bool" where
  "needsSync state forceResync now \<longleftrightarrow>
     forceResync \<or> currentNonce state = None \<or> now - lastSyncMs state > 10000"

text \<open>
  The \<^verbatim>\<open>try\<close> block of \<^verbatim>\<open>getNextNonce\<close>. \<open>now\<close> is the reading of \<^verbatim>\<open>Date.now()\<close>,
  \<open>chain\<close> what \<^verbatim>\<open>publicClient.getTransactionCount\<close> answers if it is asked: a count, or
  the value it throws. \<open>the\<close> is the source's non-null assertion
  \<^verbatim>\<open>state.currentNonce!\<close>.
\<close>

definition getNextNonce_try ::
  "NonceState \<Rightarrow> bool \<Rightarrow> int \<Rightarrow> thrown + int \<Rightarrow> (thrown + int) \<times> NonceState \<times> nat" where
  "getNextNonce_try state forceResync now chain =
     (if needsSync state forceResync now then
        (case chain of
           Inl e \<Rightarrow> (Inl e, state, 1)
         | Inr chainPending \<Rightarrow>
             (let state1 = state\<lparr>currentNonce := Some chainPending, lastSyncMs := now\<rparr>;
                  next = the (currentNonce state1)
              in (Inr next, state1\<lparr>currentNonce := Some (next + 1)\<rparr>, 1)))
      else
        (let next = the (currentNonce state)
         in (Inr next, state\<lparr>currentNonce := Some (next + 1)\<rparr>, 0)))"

definition completion_of :: "thrown + 'a \<Rightarrow> 'a completion" where
  "completion_of r = (case r of Inl e \<Rightarrow> Threw e | Inr v \<Rightarrow> Returned v)"

text \<open>
  The first two lines of \<^verbatim>\<open>getNextNonce\<close> and of \<^verbatim>\<open>resync\<close>, for caller \<open>w\<close>:
  \<^verbatim>\<open>getOrCreateState\<close>, then \<^verbatim>\<open>lock()\<close>. The flag says whether the lock is granted at once;
  if not, the caller waits in the queue. The state object is shared by reference, so
  every change to it is written back under the lowercased key.
\<close>

definition enter :: "address_state \<Rightarrow> string \<Rightarrow> nat \<Rightarrow> bool \<times> address_state" where
  "enter tbl address w =
     (let (state, tbl1) = getOrCreateState tbl address;
          (granted, m1) = lock (mutex state) w
      in (granted, tbl1(toLowerCase address \<mapsto> state\<lparr>mutex := m1\<rparr>)))"

text \<open>
  The rest of \<^verbatim>\<open>getNextNonce\<close>, run by the caller that holds the lock: the \<^verbatim>\<open>try\<close>
  block, and the \<^verbatim>\<open>finally\<close> block, which runs \<open>unlock\<close> on both exits. The second
  component is the waiting caller that \<open>unlock\<close> wakes, if there is one.
\<close>

definition getNextNonce_locked ::
  "address_state \<Rightarrow> string \<Rightarrow> bool \<Rightarrow> int \<Rightarrow> thrown + int \<Rightarrow> int call \<times> nat option" where
  "getNextNonce_locked tbl address forceResync now chain =
     (let (state, tbl1) = getOrCreateState tbl address;
          (r, state2, n) = getNextNonce_try state forceResync now chain;
          (woken, m2) = unlock (mutex state2)
      in (\<lparr>ended = completion_of r,
           table = tbl1(toLowerCase address \<mapsto> state2\<lparr>mutex := m2\<rparr>),
           fetches = n\<rparr>, woken))"

text \<open>\<^verbatim>\<open>getNextNonce(address, forceResync)\<close> called by \<open>w\<close>, as far as it gets on its own.\<close>

definition getNextNonce ::
  "address_state \<Rightarrow> string \<Rightarrow> bool \<Rightarrow> nat \<Rightarrow> int \<Rightarrow> thrown + int \<Rightarrow> int call" where
  "getNextNonce tbl address forceResync w now chain =
     (let (granted, tbl1) = enter tbl address w
      in if granted then fst (getNextNonce_locked tbl1 address forceResync now chain)
         else \<lparr>ended = Suspended, table = tbl1, fetches = 0\<rparr>)"

text \<open>\<^verbatim>\<open>resync(address)\<close>: here \<^verbatim>\<open>Date.now()\<close> is read after the answer arrived.\<close>

definition resync_locked ::
  "address_state \<Rightarrow> string \<Rightarrow> int \<Rightarrow> thrown + int \<Rightarrow> unit call \<times> nat option" where
  "resync_locked tbl address now chain =
     (let (state, tbl1) = getOrCreateState tbl address;
          (r, state2) =
             (case chain of
                Inl e \<Rightarrow> (Inl e, state)
              | Inr chainPending \<Rightarrow>
                  (Inr (), state\<lparr>currentNonce := Some chainPending, lastSyncMs := now\<rparr>));
          (woken, m2) = unlock (mutex state2)
      in (\<lparr>ended = completion_of r,
           table = tbl1(toLowerCase address \<mapsto> state2\<lparr>mutex := m2\<rparr>),
           fetches = 1\<rparr>, woken))"

definition resync ::
  "address_state \<Rightarrow> string \<Rightarrow> nat \<Rightarrow> int \<Rightarrow> thrown + int \<Rightarrow> unit call" where
  "resync tbl address w now chain =
     (let (granted, tbl1) = enter tbl address w
      in if granted then fst (resync_locked tbl1 address now chain)
         else \<lparr>ended = Suspended, table = tbl1, fetches = 0\<rparr>)"

text \<open>
  A run of calls for one address, each made after the one before it has let go of the
  mutex. Every call has its caller's number, its reading of the clock and the answer
  the chain would give.
\<close>

fun getNextNonce_seq ::
  "address_state \<Rightarrow> string \<Rightarrow> (nat \<times> int \<times> (thrown + int)) list \<Rightarrow> int call list" where
  "getNextNonce_seq tbl address [] = []"
| "getNextNonce_seq tbl address ((w, now, chain) # rest) =
     (let c = getNextNonce tbl address False w now chain
      in c # getNextNonce_seq (table c) address rest)"

text \<open>
  Calls made together. Callers \<open>w, w + 1, \<dots>\<close> all reach \<^verbatim>\<open>lock()\<close> before any of them
  goes on: \<open>arrive\<close>. Then the holder of the lock runs the rest of its call, and the
  caller it wakes runs next, until \<open>unlock\<close> wakes nobody: \<open>serve\<close>, which pairs each
  caller with what its call leaves behind. The list gives, in the order of service, the
  clock reading and the answer of the chain.
\<close>

fun arrive :: "address_state \<Rightarrow> string \<Rightarrow> nat \<Rightarrow> nat \<Rightarrow> address_state" where
  "arrive tbl address w 0 = tbl"
| "arrive tbl address w (Suc k) = arrive (snd (enter tbl address w)) address (Suc w) k"

fun serve ::
  "address_state \<Rightarrow> string \<Rightarrow> nat \<Rightarrow> (int \<times> (thrown + int)) list \<Rightarrow> (nat \<times> int call) list" where
  "serve tbl address holder [] = []"
| "serve tbl address holder ((now, chain) # rest) =
     (let (c, woken) = getNextNonce_locked tbl address False now chain
      in (holder, c) #
           (case woken of None \<Rightarrow> [] | Some next \<Rightarrow> serve (table c) address next rest))"

definition getNextNonce_together ::
  "address_state \<Rightarrow> string \<Rightarrow> (int \<times> (thrown + int)) list \<Rightarrow> (nat \<times> int call) list" where
  "getNextNonce_together tbl address inputs =
     serve (arrive tbl address 0 (length inputs)) address 0 inputs"

text \<open>The counter stored for an address, if the address has a state.\<close>

definition stored :: "address_state \<Rightarrow> string \<Rightarrow> int option" where
  "stored tbl address =
     (case tbl (toLowerCase address) of None \<Rightarrow> None | Some state \<Rightarrow> currentNonce state)"

section \<open>rpc.ts\<close>

subsection \<open>JSON values\<close>

text \<open>
  What \<^verbatim>\<open>JSON.parse\<close> returns. Numbers are the integers that JavaScript prints in plain
  decimal; an object is the list of its properties, one entry for each key. A value that
  may be \<^verbatim>\<open>undefined\<close> is a \<open>json option\<close>.
\<close>

datatype json =
    JNull
  | JBool bool
  | JNum int
  | JStr string
  | JArr "json list"
  | JObj "(string \<times> json) list"

text \<open>\<^verbatim>\<open>Boolean(x)\<close>.\<close>

fun truthy :: "json option \<Rightarrow> bool" where
  "truthy None = False"
| "truthy (Some JNull) = False"
| "truthy (Some (JBool b)) = b"
| "truthy (Some (JNum n)) = (n \<noteq> 0)"
| "truthy (Some (JStr s)) = (s \<noteq> [])"
| "truthy (Some (JArr xs)) = True"
| "truthy (Some (JObj fs)) = True"

text \<open>Reading property \<open>k\<close> of a value that is not \<^verbatim>\<open>null\<close>; only objects have one.\<close>

fun getProp :: "json \<Rightarrow> string \<Rightarrow> json option" where
  "getProp (JObj fs) k = map_of fs k"
| "getProp j k = None"

text \<open>\<^verbatim>\<open>Array.isArray(x)\<close>, and \<^verbatim>\<open>xs[i]\<close> on an array: out of range it is \<^verbatim>\<open>undefined\<close>.\<close>

fun isArray :: "json option \<Rightarrow> bool" where
  "isArray (Some (JArr xs)) = True"
| "isArray v = False"

fun at_index :: "json option \<Rightarrow> nat \<Rightarrow> json option" where
  "at_index (Some (JArr xs)) i = (if i < length xs then Some (xs ! i) else None)"
| "at_index v i = None"

text \<open>The text of a number, and of any value when it is used as a property key.\<close>

fun decimal :: "nat \<Rightarrow> string" where
  "decimal n =
     (if n < 10 then [''0123456789'' ! n]
      else decimal (n div 10) @ [''0123456789'' ! (n mod 10)])"

definition join :: "string list \<Rightarrow> string" where
  "join parts = (case parts of [] \<Rightarrow> [] | p # ps \<Rightarrow> p @ concat (map (\<lambda>q. '','' @ q) ps))"

fun toString :: "json \<Rightarrow> string" where
  "toString JNull = ''null''"
| "toString (JBool b) = (if b then ''true'' else ''false'')"
| "toString (JNum n) = (if n < 0 then ''-'' @ decimal (nat (- n)) else decimal (nat n))"
| "toString (JStr s) = s"
| "toString (JArr xs) = join (map (\<lambda>x. if x = JNull then [] else toString x) xs)"
| "toString (JObj fs) = ''[object Object]''"

definition toPropertyKey :: "json option \<Rightarrow> string" where
  "toPropertyKey v = (case v of None \<Rightarrow> ''undefined'' | Some j \<Rightarrow> toString j)"

subsection \<open>Numbers, and what arithmetic makes of other values\<close>

text \<open>
  The values that weights, costs, the budget and the token count can hold. \<open>Num x\<close> is
  the number \<open>x\<close>; \<open>NaN\<close> is the number \<^verbatim>\<open>NaN\<close>, which \<^verbatim>\<open>parseInt\<close> returns for a text
  that does not start with a numeral and the numeric operators return when an operand
  is no number. \<open>Member k\<close> is the member named \<open>k\<close> of \<^verbatim>\<open>Object.prototype\<close>, a function
  or, for \<^verbatim>\<open>__proto__\<close>, that object itself. \<open>Text\<close> is a string that \<^verbatim>\<open>+\<close> has joined
  from the text of such a member and its other operand; it is not empty and it is no
  numeral. Numbers are real numbers: rounding and overflow of floating point are not
  modelled.
\<close>

datatype jsval = Num real | NaN | Member string | Text

text \<open>\<^verbatim>\<open>Number(v)\<close>, with \<open>None\<close> for \<^verbatim>\<open>NaN\<close>.\<close>

fun toNumber :: "jsval \<Rightarrow> real option" where
  "toNumber (Num x) = Some x"
| "toNumber v = None"

text \<open>
  The operators \<^verbatim>\<open>-\<close>, \<^verbatim>\<open>*\<close>, \<^verbatim>\<open>/\<close>, \<^verbatim>\<open>Math.min\<close>, \<^verbatim>\<open>Math.max\<close> and \<^verbatim>\<open>Math.ceil\<close> turn
  their operands into numbers and answer \<^verbatim>\<open>NaN\<close> as soon as one of them is \<^verbatim>\<open>NaN\<close>.
  The only divisor in this file is the budget, which is never 0; for a divisor 0, where
  JavaScript answers an infinity, the model has no number and answers \<^verbatim>\<open>NaN\<close>.
\<close>

definition arith :: "(real \<Rightarrow> real \<Rightarrow> real) \<Rightarrow> jsval \<Rightarrow> jsval \<Rightarrow> jsval" where
  "arith f a b =
     (case toNumber a of
        None \<Rightarrow> NaN
      | Some x \<Rightarrow> (case toNumber b of None \<Rightarrow> NaN | Some y \<Rightarrow> Num (f x y)))"

definition js_minus :: "jsval \<Rightarrow> jsval \<Rightarrow> jsval" where
  "js_minus a b = arith (\<lambda>x y. x - y) a b"

definition js_times :: "jsval \<Rightarrow> jsval \<Rightarrow> jsval" where
  "js_times a b = arith (\<lambda>x y. x * y) a b"

definition js_divide :: "jsval \<Rightarrow> jsval \<Rightarrow> jsval" where
  "js_divide a b = (if toNumber b = Some 0 then NaN else arith (\<lambda>x y. x / y) a b)"

definition Math_min :: "jsval \<Rightarrow> jsval \<Rightarrow> jsval" where
  "Math_min a b = arith min a b"

definition Math_max :: "jsval \<Rightarrow> jsval \<Rightarrow> jsval" where
  "Math_max a b = arith max a b"

definition Math_ceil :: "jsval \<Rightarrow> jsval" where
  "Math_ceil a = (case toNumber a of None \<Rightarrow> NaN | Some x \<Rightarrow> Num (real_of_int \<lceil>x\<rceil>))"

text \<open>
  \<^verbatim>\<open>a + b\<close> adds two numbers; when an operand is a function, an object or a string it
  joins the texts of both.
\<close>

fun js_plus :: "jsval \<Rightarrow> jsval \<Rightarrow> jsval" where
  "js_plus (Num x) (Num y) = Num (x + y)"
| "js_plus (Num x) NaN = NaN"
| "js_plus NaN (Num y) = NaN"
| "js_plus NaN NaN = NaN"
| "js_plus a b = Text"

text \<open>
  \<^verbatim>\<open>a >= b\<close> where \<open>a\<close> is a number, as the token count is: \<open>b\<close> is turned into a number,
  and the comparison is false when either is \<^verbatim>\<open>NaN\<close>.
\<close>

definition js_ge :: "jsval \<Rightarrow> jsval \<Rightarrow> bool" where
  "js_ge a b =
     (case toNumber a of
        None \<Rightarrow> False
      | Some x \<Rightarrow> (case toNumber b of None \<Rightarrow> False | Some y \<Rightarrow> x \<ge> y))"

text \<open>\<^verbatim>\<open>v || 0\<close> for what a \<^verbatim>\<open>Map\<close> returns: \<^verbatim>\<open>undefined\<close>, 0 and \<^verbatim>\<open>NaN\<close> are falsy.\<close>

fun or_zero :: "jsval option \<Rightarrow> jsval" where
  "or_zero None = Num 0"
| "or_zero (Some NaN) = Num 0"
| "or_zero (Some v) = v"

subsection \<open>Cost model\<close>

definition DEFAULT_CU_WEIGHTS :: "string \<rightharpoonup> real" where
  "DEFAULT_CU_WEIGHTS =
     map_of
       [(''eth_chainId'', 1),
        (''net_version'', 1),
        (''web3_clientVersion'', 1),
        (''eth_blockNumber'', 1),
        (''eth_gasPrice'', 2),
        (''eth_getBalance'', 3),
        (''eth_getCode'', 4),
        (''eth_getTransactionByHash'', 3),
        (''eth_getTransactionReceipt'', 8),
        (''eth_getTransactionCount'', 3),
        (''eth_call'', 6),
        (''eth_getLogs'', 20),
        (''eth_sendRawTransaction'', 15),
        (''eth_getBlockByNumber'', 8),
        (''eth_getBlockByHash'', 8)]"

text \<open>
  Both weight tables are plain objects: \<^verbatim>\<open>DEFAULT_CU_WEIGHTS\<close> an object literal,
  \<^verbatim>\<open>USER_CU_WEIGHTS\<close> what \<^verbatim>\<open>JSON.parse\<close> makes of the setting \<^verbatim>\<open>RPC_CU_WEIGHTS\<close>, or
  \<^verbatim>\<open>{}\<close>. A table is modelled by the map of its own properties, which hold numbers as
  the declared type says. Reading \<^verbatim>\<open>table[key]\<close> finds an own property first and then
  the members every plain object inherits from \<^verbatim>\<open>Object.prototype\<close>; these are their
  names.
\<close>

definition OBJECT_PROTOTYPE :: "string list" where
  "OBJECT_PROTOTYPE =
     [''constructor'', ''__defineGetter__'', ''__defineSetter__'', ''hasOwnProperty'',
      ''__lookupGetter__'', ''__lookupSetter__'', ''isPrototypeOf'', ''propertyIsEnumerable'',
      ''toString'', ''valueOf'', ''__proto__'', ''toLocaleString'']"

text \<open>\<^verbatim>\<open>obj[key]\<close> for such a table, with \<open>None\<close> for \<^verbatim>\<open>undefined\<close>.\<close>

definition get_property :: "(string \<rightharpoonup> real) \<Rightarrow> string \<Rightarrow> jsval option" where
  "get_property obj key =
     (case obj key of
        Some x \<Rightarrow> Some (Num x)
      | None \<Rightarrow> if key \<in> set OBJECT_PROTOTYPE then Some (Member key) else None)"

text \<open>
  \<^verbatim>\<open>weightFor(method, params)\<close>. \<open>user\<close> is \<^verbatim>\<open>USER_CU_WEIGHTS\<close>, read once from the
  environment. The arguments are what \<^verbatim>\<open>parsePayload\<close> hands over, so either may be
  missing or of any JSON type; \<^verbatim>\<open>===\<close> holds only for the string itself. \<^verbatim>\<open>??\<close> passes
  on from \<^verbatim>\<open>undefined\<close> only, since no value read here is \<^verbatim>\<open>null\<close>.
\<close>

definition weightFor :: "(string \<rightharpoonup> real) \<Rightarrow> json option \<Rightarrow> json option \<Rightarrow> jsval" where
  "weightFor user method params =
     (if (method = Some (JStr ''eth_getBlockByNumber'') \<or> method = Some (JStr ''eth_getBlockByHash''))
         \<and> isArray params
      then
        (let includeTxs = truthy (at_index params 1);
             base = (case get_property user (toPropertyKey method) of
                       Some u \<Rightarrow> u
                     | None \<Rightarrow>
                         (case get_property DEFAULT_CU_WEIGHTS (toPropertyKey method) of
                            Some d \<Rightarrow> d
                          | None \<Rightarrow> Num 5))
         in if includeTxs then js_times base (Num 4) else base)
      else
        (case get_property user (toPropertyKey method) of
           Some u \<Rightarrow> u
         | None \<Rightarrow>
             (case get_property DEFAULT_CU_WEIGHTS (toPropertyKey method) of
                Some d \<Rightarrow> d
              | None \<Rightarrow> Num 5)))"

subsection \<open>Usage meter\<close>

record timeline_entry =
  ts :: int
  cus :: jsval
  endpoint :: string

record endpoint_total =
  calls :: nat
  estCus :: jsval

text \<open>
  The two per-method aggregates are JavaScript \<^verbatim>\<open>Map\<close>s, whose keys are the method
  values as they come (not turned into text). The model compares keys by value, as
  JavaScript does for strings, numbers, booleans, \<^verbatim>\<open>null\<close> and \<^verbatim>\<open>undefined\<close>. The call
  counts only ever have 1 added to a number, so they are natural numbers.
\<close>

record metrics =
  callsByMethod :: "json option \<rightharpoonup> nat"
  estCusByMethod :: "json option \<rightharpoonup> jsval"
  estCusTimeline :: "timeline_entry list"
  byEndpoint :: "string \<rightharpoonup> endpoint_total"
  headerCusTotal :: real
  headerLastSeen :: "string \<rightharpoonup> string"

definition initial_metrics :: metrics where
  "initial_metrics =
     \<lparr>callsByMethod = Map.empty, estCusByMethod = Map.empty, estCusTimeline = [],
      byEndpoint = Map.empty, headerCusTotal = 0, headerLastSeen = Map.empty\<rparr>"

text \<open>The \<^verbatim>\<open>for\<close> loop of \<^verbatim>\<open>recordUsage\<close>: the running sum and the two maps.\<close>

fun tally :: "(json option \<times> jsval) list \<Rightarrow> jsval \<Rightarrow> metrics \<Rightarrow> jsval \<times> metrics" where
  "tally [] reqCus m = (reqCus, m)"
| "tally ((method, weight) # rest) reqCus m =
     tally rest (js_plus reqCus weight)
       (m\<lparr>callsByMethod :=
             (callsByMethod m)(method \<mapsto> (case callsByMethod m method of None \<Rightarrow> 0 | Some c \<Rightarrow> c) + 1),
          estCusByMethod :=
             (estCusByMethod m)(method \<mapsto> js_plus (or_zero (estCusByMethod m method)) weight)\<rparr>)"

definition recordUsage :: "metrics \<Rightarrow> string \<Rightarrow> (json option \<times> jsval) list \<Rightarrow> int \<Rightarrow> metrics" where
  "recordUsage m endpointUrl methodWeights now =
     (let (reqCus, m1) = tally methodWeights (Num 0) m;
          m2 = m1\<lparr>estCusTimeline :=
                    estCusTimeline m1 @ [\<lparr>ts = now, cus = reqCus, endpoint = endpointUrl\<rparr>]\<rparr>;
          ep = (case byEndpoint m2 endpointUrl of
                  None \<Rightarrow> \<lparr>calls = 0, estCus = Num 0\<rparr>
                | Some e \<Rightarrow> e);
          m3 = m2\<lparr>byEndpoint :=
                    (byEndpoint m2)(endpointUrl \<mapsto>
                       \<lparr>calls = calls ep + 1, estCus = js_plus (estCus ep) reqCus\<rparr>)\<rparr>;
          cutoff = now - 5 * 60000
      in if length (estCusTimeline m3) > 5000
         then m3\<lparr>estCusTimeline := filter (\<lambda>e. ts e \<ge> cutoff) (estCusTimeline m3)\<rparr>
         else m3)"

subsection \<open>Reading the request body\<close>

text \<open>
  \<^verbatim>\<open>parsePayload(body)\<close>. \<open>s\<close> is the body as text (\<open>None\<close> when there is no body
  or it has no text), \<open>parsed\<close> what \<^verbatim>\<open>JSON.parse(s)\<close> answers if it is asked:
  \<open>None\<close> when it throws. Reading \<^verbatim>\<open>j.method\<close> of a \<^verbatim>\<open>null\<close> element throws as well,
  and the \<^verbatim>\<open>catch\<close> answers the empty list for the whole body. Each entry is the pair
  of \<^verbatim>\<open>method\<close> and \<^verbatim>\<open>params\<close>.
\<close>

definition parsePayload :: "string option \<Rightarrow> json option \<Rightarrow> (json option \<times> json option) list" where
  "parsePayload s parsed =
     (if s = None \<or> s = Some [] then []
      else
        (case parsed of
           None \<Rightarrow> []
         | Some (JArr js) \<Rightarrow>
             if JNull \<in> set js then []
             else map (\<lambda>j. (getProp j ''method'', getProp j ''params'')) js
         | Some json \<Rightarrow>
             if truthy (Some json) \<and> truthy (getProp json ''method'')
             then [(getProp json ''method'', getProp json ''params'')]
             else []))"

subsection \<open>Token bucket\<close>

text \<open>
  \<^verbatim>\<open>CU_BUDGET_PER_SEC\<close>: \<open>env\<close> is what \<^verbatim>\<open>parseInt\<close> reads from the setting
  \<^verbatim>\<open>RPC_CU_BUDGET_PER_SEC\<close>: a whole number, or \<^verbatim>\<open>NaN\<close> when the setting does not start
  with a numeral; \<open>None\<close> when the setting is absent or empty. The budget of a setting
  that is no numeral is \<^verbatim>\<open>Math.max(1, NaN)\<close>, which is \<^verbatim>\<open>NaN\<close>. Clock readings are whole
  milliseconds.
\<close>

definition CU_BUDGET_PER_SEC :: "jsval option \<Rightarrow> jsval option" where
  "CU_BUDGET_PER_SEC env = (case env of None \<Rightarrow> None | Some n \<Rightarrow> Some (Math_max (Num 1) n))"

record limiter =
  cuTokens :: jsval
  lastRefill :: int

text \<open>\<^verbatim>\<open>??\<close> replaces \<^verbatim>\<open>undefined\<close> only: with a budget of \<^verbatim>\<open>NaN\<close> the bucket starts at \<^verbatim>\<open>NaN\<close>.\<close>

definition initial_limiter :: "jsval option \<Rightarrow> int \<Rightarrow> limiter" where
  "initial_limiter budget now =
     \<lparr>cuTokens = (case budget of None \<Rightarrow> Num 0 | Some b \<Rightarrow> b), lastRefill = now\<rparr>"

definition refillTokens :: "jsval option \<Rightarrow> limiter \<Rightarrow> int \<Rightarrow> limiter" where
  "refillTokens budget l now =
     (case budget of
        None \<Rightarrow> l
      | Some b \<Rightarrow>
          (let elapsedSec = real_of_int (now - lastRefill l) / 1000
           in if elapsedSec > 0
              then l\<lparr>cuTokens := Math_min b (js_plus (cuTokens l) (js_times (Num elapsedSec) b)),
                     lastRefill := now\<rparr>
              else l))"

text \<open>
  The time a timer of Node.js takes for a delay: a delay that is not at least 1,
  \<^verbatim>\<open>NaN\<close> included, counts as 1 millisecond. The delays of this file are whole numbers.
\<close>

definition setTimeout_ms :: "jsval \<Rightarrow> int" where
  "setTimeout_ms delay =
     (case toNumber delay of None \<Rightarrow> 1 | Some x \<Rightarrow> if 1 \<le> x then \<lceil>x\<rceil> else 1)"

text \<open>
  What a call of \<^verbatim>\<open>enforceBudget\<close> leaves behind when it returns: the bucket, the
  clock, the sleeps it took in milliseconds, and a log of its passes through the loop:
  for each pass the clock reading and the bucket as \<^verbatim>\<open>refillTokens\<close> left it, before
  the test.
\<close>

record admission =
  bucket :: limiter
  clock :: int
  sleeps :: "int list"
  checks :: "(int \<times> limiter) list"

text \<open>
  The \<^verbatim>\<open>while (true)\<close> loop. It has no exit but admission, so the model counts
  iterations down from \<open>fuel\<close> and answers \<open>None\<close> when they run out. A sleep of \<open>d\<close>
  milliseconds ends \<open>d + lag i\<close> milliseconds later, \<open>lag i\<close> being how late the timer
  of iteration \<open>i\<close> fires. The bucket is touched by this caller alone.
\<close>

fun enforceBudget_loop ::
  "nat \<Rightarrow> jsval \<Rightarrow> (nat \<Rightarrow> nat) \<Rightarrow> nat \<Rightarrow> limiter \<Rightarrow> int \<Rightarrow> jsval \<Rightarrow> int list \<Rightarrow>
   (int \<times> limiter) list \<Rightarrow> admission option" where
  "enforceBudget_loop 0 b lag i l now needed slept seen = None"
| "enforceBudget_loop (Suc fuel) b lag i l now needed slept seen =
     (let l1 = refillTokens (Some b) l now
      in if js_ge (cuTokens l1) needed
         then Some \<lparr>bucket = l1\<lparr>cuTokens := js_minus (cuTokens l1) needed\<rparr>, clock = now,
                    sleeps = slept, checks = seen @ [(now, l1)]\<rparr>
         else
           (let deficit = js_minus needed (cuTokens l1);
                waitMs = Math_max (Num 5) (Math_ceil (js_times (js_divide deficit b) (Num 1000)));
                d = setTimeout_ms (Math_min waitMs (Num 200))
            in enforceBudget_loop fuel b lag (Suc i) l1 (now + d + int (lag i)) needed
                 (slept @ [d]) (seen @ [(now, l1)])))"

declare enforceBudget_loop.simps [simp del]

definition enforceBudget ::
  "nat \<Rightarrow> jsval option \<Rightarrow> (nat \<Rightarrow> nat) \<Rightarrow> limiter \<Rightarrow> int \<Rightarrow> jsval \<Rightarrow> admission option" where
  "enforceBudget fuel budget lag l now needed =
     (case budget of
        None \<Rightarrow> Some \<lparr>bucket = l, clock = now, sleeps = [], checks = []\<rparr>
      | Some b \<Rightarrow> enforceBudget_loop fuel b lag 0 l now needed [] [])"

subsection \<open>The instrumented fetch\<close>

text \<open>
  The response headers as the loop over them sees each entry: the name, the value as
  text, and the value as \<^verbatim>\<open>Number(v)\<close> reads it (\<open>None\<close> for \<^verbatim>\<open>NaN\<close>). \<open>None\<close> for the
  whole list stands for a response whose headers cannot be listed: the \<^verbatim>\<open>catch\<close> drops
  the error.
\<close>

type_synonym headers = "(string \<times> string \<times> real option) list option"

definition str_includes :: "string \<Rightarrow> string \<Rightarrow> bool" where
  "str_includes s part \<longleftrightarrow> sublist part s"

fun recordHeaders :: "(string \<times> string \<times> real option) list \<Rightarrow> metrics \<Rightarrow> metrics" where
  "recordHeaders [] m = m"
| "recordHeaders ((k, v, maybeNum) # rest) m =
     (let key = toLowerCase k
      in if str_includes key ''cu'' \<or> str_includes key ''compute'' \<or> str_includes key ''ratelimit''
         then
           (let m1 = m\<lparr>headerLastSeen := (headerLastSeen m)(key \<mapsto> v)\<rparr>
            in case maybeNum of
                 Some x \<Rightarrow>
                   if str_includes key ''cu'' \<or> str_includes key ''compute''
                   then recordHeaders rest (m1\<lparr>headerCusTotal := headerCusTotal m1 + x\<rparr>)
                   else recordHeaders rest m1
               | None \<Rightarrow> recordHeaders rest m1)
         else recordHeaders rest m)"

text \<open>\<^verbatim>\<open>endpointHost\<close>: \<open>host\<close> is what \<^verbatim>\<open>new URL(endpointUrl).host\<close> gives, if it parses.\<close>

definition endpointHost :: "string \<Rightarrow> string option \<Rightarrow> string" where
  "endpointHost endpointUrl host = (case host of Some h \<Rightarrow> h | None \<Rightarrow> endpointUrl)"

record fetched =
  response :: "thrown + headers"
  meter :: metrics
  gate :: admission

text \<open>
  The function \<^verbatim>\<open>instrumentedFetchFor(endpointUrl)\<close> returns. \<open>answer\<close> is what
  \<^verbatim>\<open>baseFetch\<close> does: it throws, or it returns a response with these headers;
  \<open>recordedAt\<close> is the clock when the usage is recorded. \<open>None\<close>: the limiter has not
  admitted the request within \<open>fuel\<close> iterations.
\<close>

definition instrumentedFetch ::
  "nat \<Rightarrow> jsval option \<Rightarrow> (string \<rightharpoonup> real) \<Rightarrow> (nat \<Rightarrow> nat) \<Rightarrow> string \<Rightarrow> string option \<Rightarrow>
   metrics \<Rightarrow> limiter \<Rightarrow> int \<Rightarrow> string option \<Rightarrow> json option \<Rightarrow> thrown + headers \<Rightarrow> int \<Rightarrow>
   fetched option" where
  "instrumentedFetch fuel budget user lag endpointUrl host m l now s parsed answer recordedAt =
     (let calls = parsePayload s parsed;
          methodWeights = map (\<lambda>(method, params). (method, weightFor user method params)) calls;
          reqCu = foldl (\<lambda>acc c. js_plus acc (snd c)) (Num 0) methodWeights
      in case enforceBudget fuel budget lag l now reqCu of
           None \<Rightarrow> None
         | Some a \<Rightarrow>
             (case answer of
                Inl e \<Rightarrow> Some \<lparr>response = Inl e, meter = m, gate = a\<rparr>
              | Inr hs \<Rightarrow>
                  (let m1 = (case hs of None \<Rightarrow> m | Some entries \<Rightarrow> recordHeaders entries m)
                   in Some \<lparr>response = Inr hs,
                            meter = recordUsage m1 (endpointHost endpointUrl host) methodWeights recordedAt,
                            gate = a\<rparr>)))"

subsection \<open>Retry with backoff\<close>

text \<open>The test in the \<^verbatim>\<open>catch\<close> block that rethrows at once.\<close>

fun isFatal :: "thrown \<Rightarrow> bool" where
  "isFatal (JsError message) \<longleftrightarrow>
     str_includes message ''insufficient funds'' \<or>
     str_includes (toLowerCase message) ''nonce'' \<or>
     str_includes message ''invalid signature'' \<or>
     str_includes message ''already known'' \<or>
     str_includes message ''replacement transaction underpriced''"
| "isFatal e \<longleftrightarrow> False"

record 'a retry_run =
  result :: "thrown + 'a"
  invocations :: nat
  delays :: "real list"

text \<open>
  The \<^verbatim>\<open>for\<close> loop of \<^verbatim>\<open>retryWithBackoff\<close>. \<open>fn k\<close> is how the \<open>k\<close>-th invocation
  of the operation ends (counting from 0), \<open>random k\<close> the value \<^verbatim>\<open>Math.random()\<close>
  returns in iteration \<open>k\<close>. \<open>maxRetries\<close> is a count, a natural number. The \<open>else\<close>
  of the loop test is the \<^verbatim>\<open>throw lastError!\<close> after the loop.
\<close>

function retry_loop ::
  "(nat \<Rightarrow> thrown + 'a) \<Rightarrow> (nat \<Rightarrow> real) \<Rightarrow> nat \<Rightarrow> real \<Rightarrow> nat \<Rightarrow> thrown \<Rightarrow> real list \<Rightarrow> 'a retry_run" where
  "retry_loop fn random maxRetries baseDelay attempt lastError slept =
     (if attempt \<le> maxRetries then
        (case fn attempt of
           Inr v \<Rightarrow> \<lparr>result = Inr v, invocations = attempt + 1, delays = slept\<rparr>
         | Inl error \<Rightarrow>
             if isFatal error
             then \<lparr>result = Inl error, invocations = attempt + 1, delays = slept\<rparr>
             else if attempt = maxRetries
             then \<lparr>result = Inl error, invocations = attempt + 1, delays = slept\<rparr>
             else
               (let delay = baseDelay * 2 ^ attempt + random attempt * 1000
                in retry_loop fn random maxRetries baseDelay (attempt + 1) error (slept @ [delay])))
      else \<lparr>result = Inl lastError, invocations = attempt, delays = slept\<rparr>)"
  by pat_completeness auto
termination
  by (relation "measure (\<lambda>(fn, random, maxRetries, baseDelay, attempt, lastError, slept).
        maxRetries + 1 - attempt)") auto

declare retry_loop.simps [simp del]

definition retryWithBackoff ::
  "(nat \<Rightarrow> thrown + 'a) \<Rightarrow> (nat \<Rightarrow> real) \<Rightarrow> nat \<Rightarrow> real \<Rightarrow> 'a retry_run" where
  "retryWithBackoff fn random maxRetries baseDelay =
     retry_loop fn random maxRetries baseDelay 0 JsUndefined []"

subsection \<open>The cost model in the words of the specification\<close>

text \<open>
  The weight as the specification words it, for a method name and a parameter list: the
  override if there is one, else the built-in default, else 5; multiplied by 4 for the
  two block-fetch methods when the second parameter is truthy.
\<close>

definition weight_by_spec :: "(string \<rightharpoonup> real) \<Rightarrow> string \<Rightarrow> json list \<Rightarrow> real" where
  "weight_by_spec user method params =
     (let selected =
            (if method \<in> dom user then the (user method)
             else if method \<in> dom DEFAULT_CU_WEIGHTS then the (DEFAULT_CU_WEIGHTS method)
             else 5)
      in if (method = ''eth_getBlockByNumber'' \<or> method = ''eth_getBlockByHash'')
            \<and> 1 < length params \<and> truthy (Some (params ! 1))
         then selected * 4
         else selected)"

subsection \<open>Inputs for concrete runs\<close>

text \<open>
  An operation that fails with the same \<^verbatim>\<open>Error\<close> at every invocation, a random source
  that returns the same value at every draw, and timers that fire exactly on time.
\<close>

definition always_failing :: "string \<Rightarrow> nat \<Rightarrow> thrown + unit" where
  "always_failing message k = Inl (JsError message)"

definition constant_draw :: "real \<Rightarrow> nat \<Rightarrow> real" where
  "constant_draw r k = r"

definition punctual :: "nat \<Rightarrow> nat" where
  "punctual i = 0"

text \<open>Timers that all fire the same number of milliseconds late.\<close>

definition late_by :: "nat \<Rightarrow> nat \<Rightarrow> nat" where
  "late_by ms i = ms"

section \<open>Properties of the nonce manager\<close>

lemma getOrCreateState_known:
  "tbl (toLowerCase a) = Some st \<Longrightarrow> getOrCreateState tbl a = (st, tbl)"
  by (simp add: getOrCreateState_def)

lemma getOrCreateState_entry:
  "getOrCreateState tbl a = (st, tbl1) \<Longrightarrow> tbl1 (toLowerCase a) = Some st"
  by (auto simp: getOrCreateState_def Let_def split: option.splits)

text \<open>
  The state the \<^verbatim>\<open>try\<close> block issues from always has its counter set, so the non-null
  assertion of the source never meets \<^verbatim>\<open>undefined\<close>.
\<close>

lemma issue_counter_set:
  "needsSync st f now \<or> currentNonce st \<noteq> None"
  by (auto simp: needsSync_def)

lemma getOrCreateState_written:
  "getOrCreateState (tbl(toLowerCase a \<mapsto> st)) a = (st, tbl(toLowerCase a \<mapsto> st))"
  by (simp add: getOrCreateState_def)

lemma enter_free:
  assumes "getOrCreateState tbl a = (st, tbl1)" and "mutex st = new_AsyncMutex"
  shows "enter tbl a w = (True, tbl1(toLowerCase a \<mapsto> st\<lparr>mutex := \<lparr>queue = [], locked = True\<rparr>\<rparr>))"
  using assms by (simp add: enter_def lock_def new_AsyncMutex_def)

lemma enter_held:
  assumes "getOrCreateState tbl a = (st, tbl1)" and "locked (mutex st)"
  shows "enter tbl a w =
     (False, tbl1(toLowerCase a \<mapsto> st\<lparr>mutex := (mutex st)\<lparr>queue := queue (mutex st) @ [w]\<rparr>\<rparr>))"
  using assms by (simp add: enter_def lock_def)

lemma getNextNonce_locked_known:
  assumes "tbl (toLowerCase a) = Some st"
  shows "getNextNonce_locked tbl a f now chain =
     (case getNextNonce_try st f now chain of
        (r, st2, k) \<Rightarrow>
          (\<lparr>ended = completion_of r,
            table = tbl(toLowerCase a \<mapsto> st2\<lparr>mutex := snd (unlock (mutex st2))\<rparr>),
            fetches = k\<rparr>,
           fst (unlock (mutex st2))))"
  using assms
  by (simp add: getNextNonce_locked_def getOrCreateState_known split: prod.splits)

lemma getNextNonce_try_mutex:
  "getNextNonce_try st f now chain = (r, st2, k) \<Longrightarrow> mutex st2 = mutex st"
  by (auto simp: getNextNonce_try_def Let_def split: if_splits sum.splits)

text \<open>A call that finds the mutex free runs the \<^verbatim>\<open>try\<close> block and frees the mutex again.\<close>

lemma getNextNonce_granted:
  assumes "getOrCreateState tbl a = (st, tbl1)" and "mutex st = new_AsyncMutex"
  shows "getNextNonce tbl a f w now chain =
     (case getNextNonce_try (st\<lparr>mutex := \<lparr>queue = [], locked = True\<rparr>\<rparr>) f now chain of
        (r, st2, k) \<Rightarrow>
          \<lparr>ended = completion_of r,
           table = tbl1(toLowerCase a \<mapsto> st2\<lparr>mutex := new_AsyncMutex\<rparr>),
           fetches = k\<rparr>)"
proof -
  let ?held = "st\<lparr>mutex := \<lparr>queue = [], locked = True\<rparr>\<rparr>"
  obtain r st2 k where tried: "getNextNonce_try ?held f now chain = (r, st2, k)"
    by (cases "getNextNonce_try ?held f now chain")
  have m: "mutex st2 = \<lparr>queue = [], locked = True\<rparr>"
    using getNextNonce_try_mutex [OF tried] by simp
  show ?thesis
    by (simp add: getNextNonce_def enter_free [OF assms] getNextNonce_locked_known tried m
        unlock_def new_AsyncMutex_def)
qed

lemma resync_granted:
  assumes "getOrCreateState tbl a = (st, tbl1)" and "mutex st = new_AsyncMutex"
  shows "resync tbl a w now chain =
     (case chain of
        Inl e \<Rightarrow> \<lparr>ended = Threw e, table = tbl1(toLowerCase a \<mapsto> st), fetches = 1\<rparr>
      | Inr p \<Rightarrow> \<lparr>ended = Returned (),
                  table = tbl1(toLowerCase a \<mapsto> st\<lparr>currentNonce := Some p, lastSyncMs := now\<rparr>),
                  fetches = 1\<rparr>)"
proof -
  have freed: "st\<lparr>mutex := \<lparr>queue = [], locked = False\<rparr>\<rparr> = st"
    using assms(2) by (cases st) (simp add: new_AsyncMutex_def)
  have freed': "st\<lparr>currentNonce := c, lastSyncMs := t, mutex := \<lparr>queue = [], locked = False\<rparr>\<rparr>
      = st\<lparr>currentNonce := c, lastSyncMs := t\<rparr>" for c t
    using assms(2) by (cases st) (simp add: new_AsyncMutex_def)
  show ?thesis
    by (cases chain)
       (simp_all add: resync_def enter_free [OF assms] resync_locked_def getOrCreateState_written
        unlock_def completion_of_def freed freed')
qed

text \<open>A call that is suspended has changed nothing but the queue of the mutex.\<close>

lemma getNextNonce_suspended:
  assumes "getOrCreateState tbl a = (st, tbl1)" and "locked (mutex st)"
  shows "getNextNonce tbl a f w now chain =
     \<lparr>ended = Suspended,
      table = tbl1(toLowerCase a \<mapsto> st\<lparr>mutex := (mutex st)\<lparr>queue := queue (mutex st) @ [w]\<rparr>\<rparr>),
      fetches = 0\<rparr>"
  by (simp add: getNextNonce_def enter_held [OF assms])

lemma getNextNonce_fresh_enough:
  assumes "tbl (toLowerCase a) = Some st" and "mutex st = new_AsyncMutex"
    and "currentNonce st = Some n" and "now - lastSyncMs st \<le> 10000"
  shows "getNextNonce tbl a False w now chain =
     \<lparr>ended = Returned n, table = tbl(toLowerCase a \<mapsto> st\<lparr>currentNonce := Some (n + 1)\<rparr>), fetches = 0\<rparr>"
  using assms
  by (cases st)
     (simp add: getNextNonce_granted [OF getOrCreateState_known] getNextNonce_try_def
      needsSync_def completion_of_def new_AsyncMutex_def)

lemma getNextNonce_seq_run:
  assumes "tbl (toLowerCase a) = Some st" and "mutex st = new_AsyncMutex"
    and "currentNonce st = Some n"
    and "\<forall>(w, now, chain) \<in> set cs. now - lastSyncMs st \<le> 10000"
  shows "map ended (getNextNonce_seq tbl a cs) = map Returned [n..n + int (length cs) - 1]
       \<and> map fetches (getNextNonce_seq tbl a cs) = replicate (length cs) 0
       \<and> map (\<lambda>c. stored (table c) a) (getNextNonce_seq tbl a cs)
            = map Some [n + 1..n + int (length cs)]"
  using assms
proof (induction cs arbitrary: tbl st n)
  case Nil
  then show ?case by simp
next
  case (Cons c cs)
  obtain w now chain where c: "c = (w, now, chain)" by (cases c)
  let ?st = "st\<lparr>currentNonce := Some (n + 1)\<rparr>"
  let ?tbl = "tbl(toLowerCase a \<mapsto> ?st)"
  have fresh: "now - lastSyncMs st \<le> 10000" using Cons.prems(4) c by simp
  have step: "getNextNonce tbl a False w now chain =
      \<lparr>ended = Returned n, table = ?tbl, fetches = 0\<rparr>"
    using Cons.prems(1-3) fresh by (simp add: getNextNonce_fresh_enough)
  have rest: "\<forall>(w, now, chain) \<in> set cs. now - lastSyncMs ?st \<le> 10000"
    using Cons.prems(4) by simp
  have IH: "map ended (getNextNonce_seq ?tbl a cs) = map Returned [n + 1..n + 1 + int (length cs) - 1]
       \<and> map fetches (getNextNonce_seq ?tbl a cs) = replicate (length cs) 0
       \<and> map (\<lambda>c. stored (table c) a) (getNextNonce_seq ?tbl a cs)
            = map Some [n + 1 + 1..n + 1 + int (length cs)]"
    by (rule Cons.IH [of ?tbl ?st "n + 1"]) (use Cons.prems(2) rest in simp_all)
  have u1: "[n..n + int (length (c # cs)) - 1] = n # [n + 1..n + 1 + int (length cs) - 1]"
    by (subst upto_rec1) (simp_all add: algebra_simps)
  have u2: "[n + 1..n + int (length (c # cs))] = (n + 1) # [n + 1 + 1..n + 1 + int (length cs)]"
    by (subst upto_rec1) (simp_all add: algebra_simps)
  show ?case
    unfolding u1 u2 using IH by (simp add: c step stored_def)
qed

lemma arrive_held:
  assumes "tbl (toLowerCase a) = Some st" and "locked (mutex st)"
  shows "arrive tbl a w k =
     tbl(toLowerCase a \<mapsto> st\<lparr>mutex := (mutex st)\<lparr>queue := queue (mutex st) @ [w..<w + k]\<rparr>\<rparr>)"
  using assms
proof (induction k arbitrary: tbl st w)
  case 0
  then show ?case by (cases st) (simp add: map_upd_triv)
next
  case (Suc k)
  let ?st = "st\<lparr>mutex := (mutex st)\<lparr>queue := queue (mutex st) @ [w]\<rparr>\<rparr>"
  have e: "enter tbl a w = (False, tbl(toLowerCase a \<mapsto> ?st))"
    using Suc.prems by (simp add: enter_held [OF getOrCreateState_known])
  have "arrive (tbl(toLowerCase a \<mapsto> ?st)) a (Suc w) k =
      (tbl(toLowerCase a \<mapsto> ?st))(toLowerCase a \<mapsto>
          ?st\<lparr>mutex := (mutex ?st)\<lparr>queue := queue (mutex ?st) @ [Suc w..<Suc w + k]\<rparr>\<rparr>)"
    using Suc.prems(2) by (intro Suc.IH) simp_all
  moreover have "[w..<w + Suc k] = w # [Suc w..<Suc w + k]"
    using upt_conv_Cons [of w "w + Suc k"] by simp
  ultimately show ?case
    by (simp add: e del: upt_Suc)
qed

lemma arrive_free:
  assumes "tbl (toLowerCase a) = Some st" and "mutex st = new_AsyncMutex"
  shows "arrive tbl a w (Suc k) =
     tbl(toLowerCase a \<mapsto> st\<lparr>mutex := \<lparr>queue = [Suc w..<Suc w + k], locked = True\<rparr>\<rparr>)"
proof -
  let ?st = "st\<lparr>mutex := \<lparr>queue = [], locked = True\<rparr>\<rparr>"
  have e: "enter tbl a w = (True, tbl(toLowerCase a \<mapsto> ?st))"
    using assms by (simp add: enter_free [OF getOrCreateState_known])
  have "arrive (tbl(toLowerCase a \<mapsto> ?st)) a (Suc w) k =
      (tbl(toLowerCase a \<mapsto> ?st))(toLowerCase a \<mapsto>
          ?st\<lparr>mutex := (mutex ?st)\<lparr>queue := queue (mutex ?st) @ [Suc w..<Suc w + k]\<rparr>\<rparr>)"
    by (intro arrive_held) simp_all
  then show ?thesis by (simp add: e)
qed

lemma getNextNonce_locked_fresh:
  assumes "tbl (toLowerCase a) = Some st" and "currentNonce st = Some n"
    and "now - lastSyncMs st \<le> 10000"
  shows "getNextNonce_locked tbl a False now chain =
     (\<lparr>ended = Returned n,
       table = tbl(toLowerCase a \<mapsto> st\<lparr>currentNonce := Some (n + 1), mutex := snd (unlock (mutex st))\<rparr>),
       fetches = 0\<rparr>,
      fst (unlock (mutex st)))"
  using assms
  by (simp add: getNextNonce_locked_known getNextNonce_try_def needsSync_def completion_of_def)

lemma serve_fifo:
  assumes "tbl (toLowerCase a) = Some st" and "mutex st = \<lparr>queue = q, locked = True\<rparr>"
    and "currentNonce st = Some n" and "length inputs = Suc (length q)"
    and "\<forall>(now, chain) \<in> set inputs. now - lastSyncMs st \<le> 10000"
  shows "map (\<lambda>(w, c). (w, ended c, stored (table c) a)) (serve tbl a h inputs)
           = map (\<lambda>(w, v). (w, Returned v, Some (v + 1))) (zip (h # q) [n..n + int (length q)])
       \<and> map_option mutex (table (snd (last (serve tbl a h inputs))) (toLowerCase a)) = Some new_AsyncMutex"
  using assms
proof (induction inputs arbitrary: tbl st q n h)
  case Nil
  then show ?case by simp
next
  case (Cons x inputs)
  obtain now chain where x: "x = (now, chain)" by (cases x)
  have fresh: "now - lastSyncMs st \<le> 10000" using Cons.prems(5) x by simp
  let ?st = "st\<lparr>currentNonce := Some (n + 1), mutex := snd (unlock (mutex st))\<rparr>"
  let ?tbl = "tbl(toLowerCase a \<mapsto> ?st)"
  have step: "getNextNonce_locked tbl a False now chain =
      (\<lparr>ended = Returned n, table = ?tbl, fetches = 0\<rparr>, fst (unlock (mutex st)))"
    using Cons.prems(1,3) fresh by (rule getNextNonce_locked_fresh)
  show ?case
  proof (cases q)
    case Nil
    then have "inputs = []" using Cons.prems(4) by simp
    then show ?thesis
      using Nil Cons.prems(2) by (simp add: x step unlock_def stored_def new_AsyncMutex_def)
  next
    case (Cons nxt rest)
    have u: "unlock (mutex st) = (Some nxt, \<lparr>queue = rest, locked = True\<rparr>)"
      using Cons Cons.prems(2) by (simp add: unlock_def)
    have IH: "map (\<lambda>(w, c). (w, ended c, stored (table c) a)) (serve ?tbl a nxt inputs)
           = map (\<lambda>(w, v). (w, Returned v, Some (v + 1))) (zip (nxt # rest) [n + 1..n + 1 + int (length rest)])
       \<and> map_option mutex (table (snd (last (serve ?tbl a nxt inputs))) (toLowerCase a)) = Some new_AsyncMutex"
      using Cons.prems(3,4,5) Cons by (intro Cons.IH [of ?tbl ?st rest "n + 1" nxt]) (simp_all add: u)
    have ne: "serve ?tbl a nxt inputs \<noteq> []"
      using Cons.prems(4) Cons by (cases inputs) (auto split: prod.splits)
    have up: "[n..n + (1 + int (length rest))] = n # [n + 1..n + 1 + int (length rest)]"
      by (subst upto_rec1) (simp_all add: algebra_simps)
    show ?thesis
      using IH ne by (simp add: x step u up Cons stored_def)
  qed
qed

text \<open>
  Calls made together are served in the order of their arrival: caller \<open>i\<close> gets the
  \<open>i\<close>-th nonce of the run, and the last one leaves the mutex free.
\<close>

lemma getNextNonce_together_fifo:
  assumes "tbl (toLowerCase a) = Some st" and "mutex st = new_AsyncMutex"
    and "currentNonce st = Some n"
    and "\<forall>(now, chain) \<in> set inputs. now - lastSyncMs st \<le> 10000"
  shows "map (\<lambda>(w, c). (w, ended c, stored (table c) a)) (getNextNonce_together tbl a inputs)
           = map (\<lambda>(w, v). (w, Returned v, Some (v + 1)))
               (zip [0..<length inputs] [n..n + int (length inputs) - 1])
       \<and> (inputs \<noteq> [] \<longrightarrow>
            map_option mutex (table (snd (last (getNextNonce_together tbl a inputs))) (toLowerCase a))
              = Some new_AsyncMutex)"
proof (cases inputs)
  case Nil
  then show ?thesis by (simp add: getNextNonce_together_def)
next
  case (Cons x xs)
  let ?q = "[Suc 0..<Suc 0 + length xs]"
  let ?st = "st\<lparr>mutex := \<lparr>queue = ?q, locked = True\<rparr>\<rparr>"
  let ?tbl = "tbl(toLowerCase a \<mapsto> ?st)"
  have arrived: "arrive tbl a 0 (length inputs) = ?tbl"
    using arrive_free [of tbl a st 0 "length xs"] assms(1,2) Cons by simp
  have p1: "?tbl (toLowerCase a) = Some ?st"
    by simp
  have p2: "mutex ?st = \<lparr>queue = ?q, locked = True\<rparr>"
    by simp
  have p3: "currentNonce ?st = Some n"
    using assms(3) by simp
  have p4: "length inputs = Suc (length ?q)"
    using Cons by (simp del: upt_Suc)
  have p5: "\<forall>(now, chain) \<in> set inputs. now - lastSyncMs ?st \<le> 10000"
    using assms(4) by simp
  have "map (\<lambda>(w, c). (w, ended c, stored (table c) a)) (serve ?tbl a 0 inputs)
           = map (\<lambda>(w, v). (w, Returned v, Some (v + 1))) (zip (0 # ?q) [n..n + int (length ?q)])
       \<and> map_option mutex (table (snd (last (serve ?tbl a 0 inputs))) (toLowerCase a)) = Some new_AsyncMutex"
    by (rule serve_fifo [of ?tbl a ?st ?q n inputs 0, OF p1 p2 p3 p4 p5])
  moreover have "0 # ?q = [0..<length inputs]"
    using Cons upt_conv_Cons [of 0 "Suc (length xs)"] by (simp del: upt_Suc)
  moreover have "n + int (length ?q) = n + int (length inputs) - 1"
    using Cons by (simp del: upt_Suc)
  ultimately show ?thesis
    by (simp only: getNextNonce_together_def arrived) simp
qed

text \<open>
  C1. Let address \<open>A\<close> have a state with the mutex free and the counter at \<open>n\<close>, and let
  \<open>N\<close> calls \<^verbatim>\<open>getNextNonce(A, false)\<close> each read a clock no more than 10000 ms past the
  last sync, so that none resyncs. If the calls follow one another, they return
  \<open>n, n + 1, \<dots>, n + N - 1\<close> in this order, all distinct; no call asks the chain; and
  after the \<open>k\<close>-th call the stored counter is \<open>n + k\<close>: each call returns the stored
  value and leaves it greater by one. If the calls are made together, the mutex serves
  them in the order of arrival with the same result: caller \<open>i\<close> gets \<open>n + i\<close> and
  leaves \<open>n + i + 1\<close> stored.
\<close>

theorem getNextNonce_contiguous_run:
  assumes "tbl (toLowerCase A) = Some st" and "mutex st = new_AsyncMutex"
    and "currentNonce st = Some n"
    and "\<forall>(w, now, chain) \<in> set cs. now - lastSyncMs st \<le> 10000"
  shows "map ended (getNextNonce_seq tbl A cs) = map Returned [n..n + int (length cs) - 1]
       \<and> distinct (map ended (getNextNonce_seq tbl A cs))
       \<and> map fetches (getNextNonce_seq tbl A cs) = replicate (length cs) 0
       \<and> map (\<lambda>c. stored (table c) A) (getNextNonce_seq tbl A cs)
            = map Some [n + 1..n + int (length cs)]
       \<and> map (\<lambda>(w, c). (w, ended c, stored (table c) A)) (getNextNonce_together tbl A (map snd cs))
            = map (\<lambda>(w, v). (w, Returned v, Some (v + 1)))
                (zip [0..<length cs] [n..n + int (length cs) - 1])"
proof -
  have run: "map ended (getNextNonce_seq tbl A cs) = map Returned [n..n + int (length cs) - 1]
       \<and> map fetches (getNextNonce_seq tbl A cs) = replicate (length cs) 0
       \<and> map (\<lambda>c. stored (table c) A) (getNextNonce_seq tbl A cs)
            = map Some [n + 1..n + int (length cs)]"
    using getNextNonce_seq_run [of tbl A st n cs] assms by blast
  have "distinct (map Returned [n..n + int (length cs) - 1])"
    by (simp add: distinct_map inj_on_def)
  moreover have "\<forall>(now, chain) \<in> set (map snd cs). now - lastSyncMs st \<le> 10000"
    using assms(4) by auto
  then have "map (\<lambda>(w, c). (w, ended c, stored (table c) A)) (getNextNonce_together tbl A (map snd cs))
            = map (\<lambda>(w, v). (w, Returned v, Some (v + 1)))
                (zip [0..<length (map snd cs)] [n..n + int (length (map snd cs)) - 1])"
    using getNextNonce_together_fifo [of tbl A st n "map snd cs"] assms(1-3) by blast
  ultimately show ?thesis using run by simp
qed

theorem getNextNonce_contiguous_run_witness:
  "map ended
     (getNextNonce_seq
        [''0xab'' \<mapsto> \<lparr>currentNonce = Some 5, lastSyncMs = 1000, mutex = new_AsyncMutex\<rparr>]
        ''0xAB''
        [(0, 2000, Inr 0), (1, 3000, Inl (JsError ''timeout'')), (2, 11000, Inr 0)])
   = [Returned 5, Returned 6, Returned 7]
   \<and> map (\<lambda>c. stored (table c) ''0xAB'')
     (getNextNonce_seq
        [''0xab'' \<mapsto> \<lparr>currentNonce = Some 5, lastSyncMs = 1000, mutex = new_AsyncMutex\<rparr>]
        ''0xAB''
        [(0, 2000, Inr 0), (1, 3000, Inl (JsError ''timeout'')), (2, 11000, Inr 0)])
   = [Some 6, Some 7, Some 8]
   \<and> map (\<lambda>(w, c). (w, ended c, stored (table c) ''0xAB''))
     (getNextNonce_together
        [''0xab'' \<mapsto> \<lparr>currentNonce = Some 5, lastSyncMs = 1000, mutex = new_AsyncMutex\<rparr>]
        ''0xAB''
        [(2000, Inr 0), (3000, Inl (JsError ''timeout'')), (11000, Inr 0)])
   = [(0, Returned 5, Some 6), (1, Returned 6, Some 7), (2, Returned 7, Some 8)]"
proof -
  let ?st = "\<lparr>currentNonce = Some 5, lastSyncMs = 1000, mutex = new_AsyncMutex\<rparr>"
  let ?tbl = "[''0xab'' \<mapsto> ?st]"
  let ?cs = "[(0, 2000, Inr 0), (1, 3000, Inl (JsError ''timeout'')), (2, 11000, Inr 0)]
               :: (nat \<times> int \<times> (thrown + int)) list"
  have h1: "?tbl (toLowerCase ''0xAB'') = Some ?st"
    by (simp add: toLowerCase_def lower_char_def)
  have h2: "mutex ?st = new_AsyncMutex" and h3: "currentNonce ?st = Some 5"
    by simp_all
  have h4: "\<forall>(w, now, chain) \<in> set ?cs. now - lastSyncMs ?st \<le> 10000"
    by simp
  have r1: "map Returned [5..5 + int (length ?cs) - 1] = [Returned 5, Returned 6, Returned 7]"
    and r2: "map Some [5 + 1..5 + int (length ?cs)] = [Some 6, Some 7, Some 8]"
    and r3: "map (\<lambda>(w, v). (w, Returned v, Some (v + 1)))
               (zip [0..<length ?cs] [5..5 + int (length ?cs) - 1])
             = [(0, Returned 5, Some 6), (1, Returned 6, Some 7), (2, Returned 7, Some 8)]"
    and r4: "map snd ?cs = [(2000, Inr 0), (3000, Inl (JsError ''timeout'')), (11000, Inr 0)]"
    by (simp_all add: upto_rec1 upt_rec)
  show ?thesis
    using getNextNonce_contiguous_run [of ?tbl "''0xAB''" ?st 5 ?cs, OF h1 h2 h3 h4]
    unfolding r1 r2 r3 r4 by blast
qed

text \<open>
  C3. A call that finds the mutex free asks the chain for the pending count exactly when
  \<open>forceResync\<close> is set, or the counter is unset, or the clock reads more than 10000 ms
  past \<open>lastSyncMs\<close>; otherwise it asks nothing. When it asks and the chain answers
  \<open>p\<close>, the call returns \<open>p\<close>, and the state holds \<open>p + 1\<close> (the count stored, then
  the issue counted) and \<open>lastSyncMs = now\<close>. When it does not ask, it returns the
  stored counter, and \<open>lastSyncMs\<close> stays as it was.
\<close>

theorem getNextNonce_resync_iff:
  assumes "getOrCreateState tbl address = (st, tbl1)" and "mutex st = new_AsyncMutex"
  shows "fetches (getNextNonce tbl address forceResync w now chain) =
            (if forceResync \<or> currentNonce st = None \<or> now - lastSyncMs st > 10000 then 1 else 0)
       \<and> (\<forall>p. (forceResync \<or> currentNonce st = None \<or> now - lastSyncMs st > 10000) \<and> chain = Inr p \<longrightarrow>
              ended (getNextNonce tbl address forceResync w now chain) = Returned p
            \<and> table (getNextNonce tbl address forceResync w now chain) (toLowerCase address)
                 = Some (st\<lparr>currentNonce := Some (p + 1), lastSyncMs := now\<rparr>))
       \<and> (\<forall>n. \<not> forceResync \<and> currentNonce st = Some n \<and> now - lastSyncMs st \<le> 10000 \<longrightarrow>
              ended (getNextNonce tbl address forceResync w now chain) = Returned n
            \<and> table (getNextNonce tbl address forceResync w now chain) (toLowerCase address)
                 = Some (st\<lparr>currentNonce := Some (n + 1)\<rparr>))"
  using assms
  by (auto simp: getNextNonce_granted getNextNonce_try_def needsSync_def Let_def
      completion_of_def new_AsyncMutex_def split: sum.splits)

theorem getNextNonce_resync_iff_witness:
  "fetches (getNextNonce
      [''0xab'' \<mapsto> \<lparr>currentNonce = Some 5, lastSyncMs = 1000, mutex = new_AsyncMutex\<rparr>]
      ''0xAB'' False 0 11001 (Inr 9)) = 1
   \<and> ended (getNextNonce
      [''0xab'' \<mapsto> \<lparr>currentNonce = Some 5, lastSyncMs = 1000, mutex = new_AsyncMutex\<rparr>]
      ''0xAB'' False 0 11001 (Inr 9)) = Returned 9
   \<and> table (getNextNonce
      [''0xab'' \<mapsto> \<lparr>currentNonce = Some 5, lastSyncMs = 1000, mutex = new_AsyncMutex\<rparr>]
      ''0xAB'' False 0 11001 (Inr 9)) ''0xab''
      = Some \<lparr>currentNonce = Some 10, lastSyncMs = 11001, mutex = new_AsyncMutex\<rparr>
   \<and> fetches (getNextNonce
      [''0xab'' \<mapsto> \<lparr>currentNonce = Some 5, lastSyncMs = 1000, mutex = new_AsyncMutex\<rparr>]
      ''0xAB'' False 0 11000 (Inr 9)) = 0
   \<and> ended (getNextNonce
      [''0xab'' \<mapsto> \<lparr>currentNonce = Some 5, lastSyncMs = 1000, mutex = new_AsyncMutex\<rparr>]
      ''0xAB'' False 0 11000 (Inr 9)) = Returned 5
   \<and> table (getNextNonce
      [''0xab'' \<mapsto> \<lparr>currentNonce = Some 5, lastSyncMs = 1000, mutex = new_AsyncMutex\<rparr>]
      ''0xAB'' False 0 11000 (Inr 9)) ''0xab''
      = Some \<lparr>currentNonce = Some 6, lastSyncMs = 1000, mutex = new_AsyncMutex\<rparr>"
proof -
  let ?st = "\<lparr>currentNonce = Some 5, lastSyncMs = 1000, mutex = new_AsyncMutex\<rparr>"
  let ?tbl = "[''0xab'' \<mapsto> ?st]"
  have low: "toLowerCase ''0xAB'' = ''0xab''"
    by (simp add: toLowerCase_def lower_char_def)
  have h1: "getOrCreateState ?tbl ''0xAB'' = (?st, ?tbl)"
    by (simp add: getOrCreateState_def low)
  have h2: "mutex ?st = new_AsyncMutex"
    by simp
  show ?thesis
    using getNextNonce_resync_iff [of ?tbl "''0xAB''" ?st ?tbl False 0 11001 "Inr 9"]
      getNextNonce_resync_iff [of ?tbl "''0xAB''" ?st ?tbl False 0 11000 "Inr 9"] h1 h2
    by (simp add: low)
qed

text \<open>
  The same for a caller that was handed the lock with others waiting behind it: the
  failed request changes neither the counter nor \<open>lastSyncMs\<close>, and \<open>unlock\<close> passes
  the lock on.
\<close>

lemma failed_fetch_passes_lock_on:
  assumes "tbl (toLowerCase a) = Some st"
  shows "(needsSync st f now \<longrightarrow>
            getNextNonce_locked tbl a f now (Inl e) =
              (\<lparr>ended = Threw e,
                table = tbl(toLowerCase a \<mapsto> st\<lparr>mutex := snd (unlock (mutex st))\<rparr>),
                fetches = 1\<rparr>,
               fst (unlock (mutex st))))
       \<and> resync_locked tbl a now (Inl e) =
              (\<lparr>ended = Threw e,
                table = tbl(toLowerCase a \<mapsto> st\<lparr>mutex := snd (unlock (mutex st))\<rparr>),
                fetches = 1\<rparr>,
               fst (unlock (mutex st)))"
  using assms
  by (simp add: getNextNonce_locked_known getNextNonce_try_def completion_of_def
      resync_locked_def getOrCreateState_known split: prod.splits)

text \<open>
  C5. When the chain request of a resync throws \<open>e\<close>, in \<^verbatim>\<open>getNextNonce\<close> or in
  \<^verbatim>\<open>resync\<close>, the call throws the same \<open>e\<close>; the table is the one \<^verbatim>\<open>getOrCreateState\<close>
  left, so the state of the address keeps its counter and its \<open>lastSyncMs\<close> and its mutex
  is free again; and the chain was asked once, not again.
\<close>

theorem failed_fetch_leaves_state:
  assumes "getOrCreateState tbl address = (st, tbl1)" and "mutex st = new_AsyncMutex"
  shows "((forceResync \<or> currentNonce st = None \<or> now - lastSyncMs st > 10000) \<longrightarrow>
            getNextNonce tbl address forceResync w now (Inl e)
              = \<lparr>ended = Threw e, table = tbl1, fetches = 1\<rparr>)
       \<and> resync tbl address w now (Inl e) = \<lparr>ended = Threw e, table = tbl1, fetches = 1\<rparr>
       \<and> tbl1 (toLowerCase address) = Some st
       \<and> \<not> locked (mutex st)"
proof -
  have same: "tbl1(toLowerCase address \<mapsto> st) = tbl1"
    using getOrCreateState_entry [OF assms(1)] by (simp add: map_upd_triv)
  have freed: "st\<lparr>mutex := \<lparr>queue = [], locked = True\<rparr>\<rparr>\<lparr>mutex := new_AsyncMutex\<rparr> = st"
    using assms(2) by (cases st) simp
  have "getNextNonce tbl address forceResync w now (Inl e)
          = \<lparr>ended = Threw e, table = tbl1, fetches = 1\<rparr>"
    if sync: "needsSync st forceResync now"
  proof -
    have "needsSync (st\<lparr>mutex := \<lparr>queue = [], locked = True\<rparr>\<rparr>) forceResync now"
      using sync by (simp add: needsSync_def)
    then have "getNextNonce_try (st\<lparr>mutex := \<lparr>queue = [], locked = True\<rparr>\<rparr>) forceResync now (Inl e)
        = (Inl e, st\<lparr>mutex := \<lparr>queue = [], locked = True\<rparr>\<rparr>, 1)"
      by (simp add: getNextNonce_try_def)
    then show ?thesis
      by (simp add: getNextNonce_granted [OF assms] completion_of_def freed same)
  qed
  moreover have "resync tbl address w now (Inl e) = \<lparr>ended = Threw e, table = tbl1, fetches = 1\<rparr>"
    using assms same by (simp add: resync_granted)
  ultimately show ?thesis
    using getOrCreateState_entry [OF assms(1)] assms(2)
    by (simp add: needsSync_def new_AsyncMutex_def)
qed

theorem failed_fetch_leaves_state_witness:
  "getNextNonce
      [''0xab'' \<mapsto> \<lparr>currentNonce = Some 5, lastSyncMs = 1000, mutex = new_AsyncMutex\<rparr>]
      ''0xAB'' True 0 2000 (Inl (JsError ''request timed out''))
     = \<lparr>ended = Threw (JsError ''request timed out''),
        table = [''0xab'' \<mapsto> \<lparr>currentNonce = Some 5, lastSyncMs = 1000, mutex = new_AsyncMutex\<rparr>],
        fetches = 1\<rparr>
   \<and> resync
      [''0xab'' \<mapsto> \<lparr>currentNonce = Some 5, lastSyncMs = 1000, mutex = new_AsyncMutex\<rparr>]
      ''0xAB'' 0 2000 (Inl (JsError ''request timed out''))
     = \<lparr>ended = Threw (JsError ''request timed out''),
        table = [''0xab'' \<mapsto> \<lparr>currentNonce = Some 5, lastSyncMs = 1000, mutex = new_AsyncMutex\<rparr>],
        fetches = 1\<rparr>"
proof -
  let ?st = "\<lparr>currentNonce = Some 5, lastSyncMs = 1000, mutex = new_AsyncMutex\<rparr>"
  let ?tbl = "[''0xab'' \<mapsto> ?st]"
  have low: "toLowerCase ''0xAB'' = ''0xab''"
    by (simp add: toLowerCase_def lower_char_def)
  have h1: "getOrCreateState ?tbl ''0xAB'' = (?st, ?tbl)"
    by (simp add: getOrCreateState_def low)
  have h2: "mutex ?st = new_AsyncMutex"
    by simp
  show ?thesis
    using failed_fetch_leaves_state
      [of ?tbl "''0xAB''" ?st ?tbl True 2000 0 "JsError ''request timed out''"] h1 h2
    by simp
qed

text \<open>
  C6, as the code has it. Over calls \<^verbatim>\<open>getNextNonce(A, false)\<close> that follow one another
  while the clock stays within 10000 ms of the last sync, the stored counter rises by one
  with every call, so it never decreases. (A resync stores the count the chain reports,
  whatever the counter was; a clock reading more than 10000 ms past the last sync
  resyncs without being forced.)
\<close>

theorem stored_nonce_increases_without_resync:
  assumes "tbl (toLowerCase A) = Some st" and "mutex st = new_AsyncMutex"
    and "currentNonce st = Some n"
    and "\<forall>(w, now, chain) \<in> set cs. now - lastSyncMs st \<le> 10000"
  shows "\<exists>vs. map (\<lambda>c. stored (table c) A) (getNextNonce_seq tbl A cs) = map Some vs
            \<and> sorted_wrt (<) (n # vs)"
proof -
  have "map (\<lambda>c. stored (table c) A) (getNextNonce_seq tbl A cs)
          = map Some [n + 1..n + int (length cs)]"
    using getNextNonce_seq_run [of tbl A st n cs] assms by blast
  moreover have "sorted_wrt (<) (n # [n + 1..n + int (length cs)])"
    by simp
  ultimately show ?thesis by blast
qed

theorem stored_nonce_increases_without_resync_witness:
  "map (\<lambda>c. stored (table c) ''0xAB'')
     (getNextNonce_seq
        [''0xab'' \<mapsto> \<lparr>currentNonce = Some 8, lastSyncMs = 0, mutex = new_AsyncMutex\<rparr>]
        ''0xAB''
        [(0, 9000, Inr 6), (1, 10000, Inr 6)])
   = map Some [9, 10]
   \<and> sorted_wrt (<) [8, 9, 10 :: int]"
proof -
  let ?st = "\<lparr>currentNonce = Some 8, lastSyncMs = 0, mutex = new_AsyncMutex\<rparr>"
  let ?tbl = "[''0xab'' \<mapsto> ?st]"
  let ?cs = "[(0, 9000, Inr 6), (1, 10000, Inr 6)] :: (nat \<times> int \<times> (thrown + int)) list"
  have h1: "?tbl (toLowerCase ''0xAB'') = Some ?st"
    by (simp add: toLowerCase_def lower_char_def)
  have h2: "mutex ?st = new_AsyncMutex" and h3: "currentNonce ?st = Some 8"
    by simp_all
  have h4: "\<forall>(w, now, chain) \<in> set ?cs. now - lastSyncMs ?st \<le> 10000"
    by simp
  obtain vs where vs: "map (\<lambda>c. stored (table c) ''0xAB'') (getNextNonce_seq ?tbl ''0xAB'' ?cs) = map Some vs"
      "sorted_wrt (<) (8 # vs)"
    using stored_nonce_increases_without_resync [of ?tbl "''0xAB''" ?st 8 ?cs] h1 h2 h3 h4
    by blast
  have run: "map (\<lambda>c. stored (table c) ''0xAB'') (getNextNonce_seq ?tbl ''0xAB'' ?cs) = map Some [9, 10]"
    using h1 by (simp add: getNextNonce_fresh_enough stored_def)
  have "map Some vs = map Some [9, 10 :: int]"
    by (rule trans [OF vs(1) [symmetric] run])
  then have "vs = [9, 10]"
    by (rule map_injective) simp
  with vs(2) run show ?thesis by simp
qed

text \<open>
  The claim as written fails: with \<open>forceResync = false\<close>, the counter at 8 and the last
  sync 10001 ms old, a chain that reports 6 pending sends the counter down to 7.
\<close>

theorem stale_resync_lowers_nonce:
  "stored [''0xab'' \<mapsto> \<lparr>currentNonce = Some 8, lastSyncMs = 0, mutex = new_AsyncMutex\<rparr>] ''0xAB''
     = Some 8
   \<and> ended (getNextNonce
        [''0xab'' \<mapsto> \<lparr>currentNonce = Some 8, lastSyncMs = 0, mutex = new_AsyncMutex\<rparr>]
        ''0xAB'' False 0 10001 (Inr 6)) = Returned 6
   \<and> stored (table (getNextNonce
        [''0xab'' \<mapsto> \<lparr>currentNonce = Some 8, lastSyncMs = 0, mutex = new_AsyncMutex\<rparr>]
        ''0xAB'' False 0 10001 (Inr 6))) ''0xAB''
     = Some 7"
  by (simp add: stored_def getNextNonce_def enter_def getNextNonce_locked_def getOrCreateState_def
      toLowerCase_def lower_char_def lock_def unlock_def new_AsyncMutex_def getNextNonce_try_def
      needsSync_def completion_of_def)

section \<open>Properties of the cost model\<close>

text \<open>
  For a method name that the override table has as its own property, or that no object
  inherits, \<^verbatim>\<open>weightFor\<close> computes the weight the specification describes: the override
  if present, else the default, else 5, times 4 for \<^verbatim>\<open>eth_getBlockByNumber\<close> and
  \<^verbatim>\<open>eth_getBlockByHash\<close> with a truthy second parameter. When the parameters are missing
  or are not an array, it is the weight for the empty list.
\<close>

lemma default_names_own:
  "DEFAULT_CU_WEIGHTS method = Some d \<Longrightarrow> method \<notin> set OBJECT_PROTOTYPE"
  by (auto simp: DEFAULT_CU_WEIGHTS_def OBJECT_PROTOTYPE_def split: if_splits)

lemma selected_weight:
  assumes "method \<in> dom user \<or> method \<notin> set OBJECT_PROTOTYPE"
  shows "(case get_property user method of
            Some u \<Rightarrow> u
          | None \<Rightarrow>
              (case get_property DEFAULT_CU_WEIGHTS method of Some d \<Rightarrow> d | None \<Rightarrow> Num 5))
         = Num (if method \<in> dom user then the (user method)
                else if method \<in> dom DEFAULT_CU_WEIGHTS then the (DEFAULT_CU_WEIGHTS method)
                else 5)"
proof (cases "user method")
  case (Some u)
  then show ?thesis by (simp add: get_property_def domI)
next
  case None
  then have no: "method \<notin> set OBJECT_PROTOTYPE" using assms by (simp add: domIff)
  show ?thesis
  proof (cases "DEFAULT_CU_WEIGHTS method")
    case (Some d)
    then show ?thesis using None no by (simp add: get_property_def domIff)
  next
    case inner: None
    then show ?thesis using None no by (simp add: get_property_def domIff)
  qed
qed

lemma weightFor_own_names:
  assumes "method \<in> dom user \<or> method \<notin> set OBJECT_PROTOTYPE"
  shows "weightFor user (Some (JStr method)) (Some (JArr params))
           = Num (weight_by_spec user method params)
       \<and> (\<not> isArray other \<longrightarrow>
            weightFor user (Some (JStr method)) other = Num (weight_by_spec user method []))"
proof -
  define w where "w = (if method \<in> dom user then the (user method)
                else if method \<in> dom DEFAULT_CU_WEIGHTS then the (DEFAULT_CU_WEIGHTS method)
                else 5)"
  have key: "toPropertyKey (Some (JStr method)) = method"
    by (simp add: toPropertyKey_def)
  note sel = selected_weight [OF assms, folded w_def]
  have spec: "weight_by_spec user method ps
      = (if (method = ''eth_getBlockByNumber'' \<or> method = ''eth_getBlockByHash'')
            \<and> 1 < length ps \<and> truthy (Some (ps ! 1))
         then w * 4 else w)" for ps
    by (simp only: weight_by_spec_def w_def Let_def)
  have code: "weightFor user (Some (JStr method)) ps
      = (if (method = ''eth_getBlockByNumber'' \<or> method = ''eth_getBlockByHash'') \<and> isArray ps
         then (if truthy (at_index ps 1) then js_times (Num w) (Num 4) else Num w)
         else Num w)" for ps
    unfolding weightFor_def key sel by (simp add: Let_def)
  have "weightFor user (Some (JStr method)) (Some (JArr params))
           = Num (weight_by_spec user method params)"
    unfolding code spec by (simp add: js_times_def arith_def)
  moreover have "weightFor user (Some (JStr method)) other = Num (weight_by_spec user method [])"
    if "\<not> isArray other"
    unfolding code spec using that by simp
  ultimately show ?thesis by blast
qed

text \<open>
  For a name that objects inherit and the override table does not have as its own,
  \<^verbatim>\<open>weightFor\<close> returns the inherited member, whatever the parameters.
\<close>

lemma weightFor_inherited:
  assumes "method \<in> set OBJECT_PROTOTYPE" and "user method = None"
  shows "weightFor user (Some (JStr method)) params = Member method"
proof -
  have "method \<noteq> ''eth_getBlockByNumber''" and "method \<noteq> ''eth_getBlockByHash''"
    using assms(1) by (auto simp: OBJECT_PROTOTYPE_def)
  then show ?thesis
    using assms by (simp add: weightFor_def get_property_def toPropertyKey_def)
qed

text \<open>
  C9, at an input on which the code misses it. With no override, the specification's
  weight of a method named \<^verbatim>\<open>constructor\<close> is the fallback 5. \<^verbatim>\<open>weightFor\<close> returns what
  the override table inherits under that name, which is no number; the same holds for
  \<^verbatim>\<open>toString\<close> and \<^verbatim>\<open>__proto__\<close>.
\<close>

theorem weightFor_inherited_name:
  "weight_by_spec Map.empty ''constructor'' [] = 5
   \<and> weightFor Map.empty (Some (JStr ''constructor'')) (Some (JArr [])) = Member ''constructor''
   \<and> weightFor Map.empty (Some (JStr ''toString'')) None = Member ''toString''
   \<and> weightFor Map.empty (Some (JStr ''__proto__'')) None = Member ''__proto__''"
  by (simp add: weight_by_spec_def weightFor_def get_property_def toPropertyKey_def
      DEFAULT_CU_WEIGHTS_def OBJECT_PROTOTYPE_def)

section \<open>Properties of the retry policy\<close>

lemmas str_includes_eval = str_includes_def sublist_code(3) toLowerCase_def lower_char_def

text \<open>
  C2. When the first invocation of the operation throws an \<^verbatim>\<open>Error\<close> whose message
  contains \<^verbatim>\<open>insufficient funds\<close>, \<^verbatim>\<open>invalid signature\<close>, \<^verbatim>\<open>already known\<close> or
  \<^verbatim>\<open>replacement transaction underpriced\<close>, or contains \<^verbatim>\<open>nonce\<close> in any letter case,
  \<^verbatim>\<open>retryWithBackoff\<close> throws that same error after one invocation and no delay.
\<close>

theorem fatal_error_not_retried:
  assumes "fn 0 = Inl (JsError message)"
    and "str_includes message ''insufficient funds''
       \<or> str_includes message ''invalid signature''
       \<or> str_includes (toLowerCase message) ''nonce''
       \<or> str_includes message ''already known''
       \<or> str_includes message ''replacement transaction underpriced''"
  shows "retryWithBackoff fn random maxRetries baseDelay
           = \<lparr>result = Inl (JsError message), invocations = 1, delays = []\<rparr>"
  using assms by (auto simp: retryWithBackoff_def retry_loop.simps [of _ _ _ _ 0])

theorem fatal_error_not_retried_witness:
  "retryWithBackoff (always_failing ''insufficient funds for gas * price + value'')
       (constant_draw 0) 3 1000
     = \<lparr>result = Inl (JsError ''insufficient funds for gas * price + value''),
        invocations = 1, delays = []\<rparr>
   \<and> retryWithBackoff (always_failing ''Nonce too low'') (constant_draw 0) 3 1000
     = \<lparr>result = Inl (JsError ''Nonce too low''), invocations = 1, delays = []\<rparr>"
proof -
  have f1: "always_failing ''insufficient funds for gas * price + value'' 0
              = Inl (JsError ''insufficient funds for gas * price + value'')"
    and f2: "always_failing ''Nonce too low'' 0 = Inl (JsError ''Nonce too low'')"
    by (simp_all add: always_failing_def)
  have h1: "str_includes ''insufficient funds for gas * price + value'' ''insufficient funds''
       \<or> str_includes ''insufficient funds for gas * price + value'' ''invalid signature''
       \<or> str_includes (toLowerCase ''insufficient funds for gas * price + value'') ''nonce''
       \<or> str_includes ''insufficient funds for gas * price + value'' ''already known''
       \<or> str_includes ''insufficient funds for gas * price + value''
            ''replacement transaction underpriced''"
    by (simp add: str_includes_eval)
  have h2: "str_includes ''Nonce too low'' ''insufficient funds''
       \<or> str_includes ''Nonce too low'' ''invalid signature''
       \<or> str_includes (toLowerCase ''Nonce too low'') ''nonce''
       \<or> str_includes ''Nonce too low'' ''already known''
       \<or> str_includes ''Nonce too low'' ''replacement transaction underpriced''"
    by (simp add: str_includes_eval)
  show ?thesis
    using fatal_error_not_retried
        [of "always_failing ''insufficient funds for gas * price + value''"
            "''insufficient funds for gas * price + value''" "constant_draw 0" 3 1000, OF f1 h1]
      fatal_error_not_retried
        [of "always_failing ''Nonce too low''" "''Nonce too low''" "constant_draw 0" 3 1000,
         OF f2 h2]
    by (rule conjI)
qed

text \<open>A thrown value that is no \<^verbatim>\<open>Error\<close> is never fatal, whatever it carries.\<close>

lemma non_error_not_fatal:
  "\<not> isFatal (JsValue v) \<and> \<not> isFatal JsUndefined"
  by simp

text \<open>The operation is invoked at least once and at most \<open>maxRetries + 1\<close> times.\<close>

lemma retry_loop_invocations:
  "attempt \<le> maxRetries \<Longrightarrow>
     attempt < invocations (retry_loop fn random maxRetries baseDelay attempt lastError slept)
     \<and> invocations (retry_loop fn random maxRetries baseDelay attempt lastError slept) \<le> maxRetries + 1"
proof (induction "maxRetries - attempt" arbitrary: attempt lastError slept)
  case 0
  then show ?case
    by (simp add: retry_loop.simps [of _ _ _ _ attempt] split: sum.splits)
next
  case (Suc d)
  have "attempt + 1 < invocations (retry_loop fn random maxRetries baseDelay (attempt + 1) e s)
     \<and> invocations (retry_loop fn random maxRetries baseDelay (attempt + 1) e s) \<le> maxRetries + 1"
    for e s
    using Suc.hyps(2) by (intro Suc.hyps(1)) simp_all
  note IH = this
  have lt: "attempt < maxRetries"
    using Suc.hyps(2) by simp
  show ?case
  proof (cases "fn attempt")
    case (Inr v)
    then show ?thesis
      using lt by (simp add: retry_loop.simps [of _ _ _ _ attempt])
  next
    case (Inl e)
    show ?thesis
    proof (cases "isFatal e")
      case True
      then show ?thesis
        using Inl lt by (simp add: retry_loop.simps [of _ _ _ _ attempt])
    next
      case False
      then have "retry_loop fn random maxRetries baseDelay attempt lastError slept =
          retry_loop fn random maxRetries baseDelay (attempt + 1) e
            (slept @ [baseDelay * 2 ^ attempt + random attempt * 1000])"
        using Inl lt by (simp add: retry_loop.simps [of _ _ _ _ attempt])
      then show ?thesis
        using IH [of e "slept @ [baseDelay * 2 ^ attempt + random attempt * 1000]"] by simp
    qed
  qed
qed

lemma retry_loop_all_fail:
  assumes "\<forall>k \<le> maxRetries. \<exists>e. fn k = Inl e \<and> \<not> isFatal e" and "a \<le> maxRetries"
  shows "retry_loop fn random maxRetries baseDelay a lastError slept =
     \<lparr>result = fn maxRetries, invocations = maxRetries + 1,
      delays = slept @ map (\<lambda>k. baseDelay * 2 ^ k + random k * 1000) [a..<maxRetries]\<rparr>"
  using assms(2)
proof (induction "maxRetries - a" arbitrary: a lastError slept)
  case 0
  then have "a = maxRetries" by simp
  moreover obtain e where "fn maxRetries = Inl e" "\<not> isFatal e" using assms(1) by blast
  ultimately show ?case by (simp add: retry_loop.simps [of _ _ _ _ maxRetries])
next
  case (Suc d)
  then have lt: "a < maxRetries" by simp
  obtain e where e: "fn a = Inl e" "\<not> isFatal e" using assms(1) Suc.prems by blast
  have "retry_loop fn random maxRetries baseDelay a lastError slept =
      retry_loop fn random maxRetries baseDelay (a + 1) e (slept @ [baseDelay * 2 ^ a + random a * 1000])"
    using lt e by (simp add: retry_loop.simps [of _ _ _ _ a])
  also have "\<dots> = \<lparr>result = fn maxRetries, invocations = maxRetries + 1,
      delays = (slept @ [baseDelay * 2 ^ a + random a * 1000])
                 @ map (\<lambda>k. baseDelay * 2 ^ k + random k * 1000) [a + 1..<maxRetries]\<rparr>"
    using Suc.hyps(2) lt by (intro Suc.hyps(1)) simp_all
  finally show ?case using lt by (simp add: upt_conv_Cons)
qed

text \<open>
  C4, as the code has it. Let every invocation of the operation fail with an error that
  is not fatal, and let \<^verbatim>\<open>Math.random()\<close> return values in \<open>[0, 1)\<close>. Then the operation
  is invoked \<open>maxRetries + 1\<close> times, with \<open>maxRetries\<close> delays between; the delay
  before retry \<open>N\<close> is \<open>baseDelay * 2 ^ (N - 1)\<close> plus a jitter in \<open>[0, 1000)\<close>; the error
  thrown in the end is that of the last invocation; and when \<open>baseDelay\<close> is positive,
  the delays without their jitter increase strictly.
\<close>

theorem backoff_schedule:
  assumes "\<forall>k \<le> maxRetries. \<exists>e. fn k = Inl e \<and> \<not> isFatal e"
    and "\<forall>k. 0 \<le> random k \<and> random k < 1"
  shows "invocations (retryWithBackoff fn random maxRetries baseDelay) = maxRetries + 1
       \<and> length (delays (retryWithBackoff fn random maxRetries baseDelay)) = maxRetries
       \<and> (\<forall>N. 1 \<le> N \<and> N \<le> maxRetries \<longrightarrow>
             delays (retryWithBackoff fn random maxRetries baseDelay) ! (N - 1)
               = baseDelay * 2 ^ (N - 1) + 1000 * random (N - 1)
             \<and> 0 \<le> 1000 * random (N - 1) \<and> 1000 * random (N - 1) < 1000)
       \<and> result (retryWithBackoff fn random maxRetries baseDelay) = fn maxRetries
       \<and> (0 < baseDelay \<longrightarrow>
            (\<forall>N. 1 \<le> N \<and> N < maxRetries \<longrightarrow>
               delays (retryWithBackoff fn random maxRetries baseDelay) ! (N - 1) - 1000 * random (N - 1)
                 < delays (retryWithBackoff fn random maxRetries baseDelay) ! N - 1000 * random N))"
proof -
  have run: "retryWithBackoff fn random maxRetries baseDelay =
      \<lparr>result = fn maxRetries, invocations = maxRetries + 1,
       delays = map (\<lambda>k. baseDelay * 2 ^ k + random k * 1000) [0..<maxRetries]\<rparr>"
    using retry_loop_all_fail [OF assms(1), of 0] by (simp add: retryWithBackoff_def)
  have grow: "baseDelay * 2 ^ (N - 1) < baseDelay * 2 ^ N" if "0 < baseDelay" "1 \<le> N" for N
  proof -
    have "(2::real) ^ (N - 1) < 2 ^ N"
      using that(2) by (intro power_strict_increasing) simp_all
    then show ?thesis using that(1) by simp
  qed
  show ?thesis
    unfolding run using assms(2) grow by (auto simp: less_eq_Suc_le)
qed

theorem backoff_schedule_witness:
  "invocations (retryWithBackoff (always_failing ''rate limit exceeded'') (constant_draw (1 / 4)) 3 1000) = 4
   \<and> length (delays (retryWithBackoff (always_failing ''rate limit exceeded'') (constant_draw (1 / 4)) 3 1000)) = 3
   \<and> delays (retryWithBackoff (always_failing ''rate limit exceeded'') (constant_draw (1 / 4)) 3 1000) ! 0 = 1250
   \<and> delays (retryWithBackoff (always_failing ''rate limit exceeded'') (constant_draw (1 / 4)) 3 1000) ! 1 = 2250
   \<and> delays (retryWithBackoff (always_failing ''rate limit exceeded'') (constant_draw (1 / 4)) 3 1000) ! 2 = 4250
   \<and> result (retryWithBackoff (always_failing ''rate limit exceeded'') (constant_draw (1 / 4)) 3 1000)
       = Inl (JsError ''rate limit exceeded'')"
proof -
  let ?fn = "always_failing ''rate limit exceeded''"
  let ?random = "constant_draw (1 / 4)"
  let ?run = "retryWithBackoff ?fn ?random 3 1000"
  have h1: "\<forall>k \<le> 3. \<exists>e. ?fn k = Inl e \<and> \<not> isFatal e"
    by (simp add: always_failing_def str_includes_eval)
  have h2: "\<forall>k. 0 \<le> ?random k \<and> ?random k < 1"
    by (simp add: constant_draw_def)
  note sched = backoff_schedule [of 3 ?fn ?random 1000, OF h1 h2]
  have len: "length (delays ?run) = 3" and inv: "invocations ?run = 4"
    and res: "result ?run = Inl (JsError ''rate limit exceeded'')"
    using sched by (simp_all add: always_failing_def)
  have d: "delays ?run ! (N - 1) = 1000 * 2 ^ (N - 1) + 1000 * (1 / 4)" if "1 \<le> N" "N \<le> 3" for N
    using sched that by (simp add: constant_draw_def)
  have "delays ?run ! 0 = 1250" "delays ?run ! 1 = 2250" "delays ?run ! 2 = 4250"
    using d [of 1] d [of 2] d [of 3] by simp_all
  with len inv res show ?thesis
    by simp
qed

text \<open>
  The claim as written fails when the base delay is 0: every delay is its jitter alone,
  so the delays do not grow from one retry to the next.
\<close>

theorem backoff_flat_at_zero_base:
  "retryWithBackoff (always_failing ''rate limit exceeded'') (constant_draw (1 / 2)) 2 0
     = \<lparr>result = Inl (JsError ''rate limit exceeded''), invocations = 3, delays = [500, 500]\<rparr>"
  by (simp add: retryWithBackoff_def retry_loop.simps [of _ _ 2] always_failing_def
      constant_draw_def str_includes_eval)

section \<open>Properties of the token bucket\<close>

text \<open>On numbers the operators are those of the real numbers.\<close>

lemma js_ge_Num [simp]:
  "js_ge (Num a) (Num c) \<longleftrightarrow> c \<le> a"
  by (simp add: js_ge_def)

lemma js_ge_no_number:
  "toNumber v = None \<Longrightarrow> \<not> js_ge a v \<and> \<not> js_ge v a"
  by (simp add: js_ge_def split: option.splits)

lemma js_minus_Num [simp]:
  "js_minus (Num a) (Num c) = Num (a - c)"
  by (simp add: js_minus_def arith_def)

lemma js_times_Num [simp]:
  "js_times (Num a) (Num c) = Num (a * c)"
  by (simp add: js_times_def arith_def)

lemma js_divide_Num [simp]:
  "c \<noteq> 0 \<Longrightarrow> js_divide (Num a) (Num c) = Num (a / c)"
  by (simp add: js_divide_def arith_def)

lemma Math_min_Num [simp]:
  "Math_min (Num a) (Num c) = Num (min a c)"
  by (simp add: Math_min_def arith_def)

lemma Math_max_Num [simp]:
  "Math_max (Num a) (Num c) = Num (max a c)"
  by (simp add: Math_max_def arith_def)

lemma Math_ceil_Num [simp]:
  "Math_ceil (Num a) = Num (real_of_int \<lceil>a\<rceil>)"
  by (simp add: Math_ceil_def)

lemma Math_min_NaN [simp]:
  "Math_min NaN v = NaN"
  by (simp add: Math_min_def arith_def)

lemma setTimeout_ms_whole [simp]:
  "1 \<le> k \<Longrightarrow> setTimeout_ms (Num (real_of_int k)) = k"
  by (simp add: setTimeout_ms_def)

lemma CU_BUDGET_PER_SEC_at_least_1:
  "CU_BUDGET_PER_SEC env = Some (Num b) \<Longrightarrow> 1 \<le> b"
  by (auto simp: CU_BUDGET_PER_SEC_def Math_max_def arith_def split: option.splits)

lemma CU_BUDGET_PER_SEC_Num:
  "CU_BUDGET_PER_SEC (Some (Num n)) = Some (Num (max 1 n))"
  by (simp add: CU_BUDGET_PER_SEC_def)

lemma CU_BUDGET_PER_SEC_NaN:
  "CU_BUDGET_PER_SEC (Some NaN) = Some NaN"
  by (simp add: CU_BUDGET_PER_SEC_def Math_max_def arith_def)

lemma loop_admit:
  "js_ge (cuTokens (refillTokens (Some b) l now)) needed \<Longrightarrow>
     enforceBudget_loop (Suc fuel) b lag i l now needed slept seen =
       Some \<lparr>bucket = (refillTokens (Some b) l now)
                \<lparr>cuTokens := js_minus (cuTokens (refillTokens (Some b) l now)) needed\<rparr>,
             clock = now, sleeps = slept, checks = seen @ [(now, refillTokens (Some b) l now)]\<rparr>"
  by (simp add: enforceBudget_loop.simps Let_def)

lemma loop_wait:
  "\<not> js_ge (cuTokens (refillTokens (Some b) l now)) needed \<Longrightarrow>
     enforceBudget_loop (Suc fuel) b lag i l now needed slept seen =
       enforceBudget_loop fuel b lag (Suc i) (refillTokens (Some b) l now)
         (now + setTimeout_ms (Math_min (Math_max (Num 5) (Math_ceil (js_times (js_divide
                  (js_minus needed (cuTokens (refillTokens (Some b) l now))) b) (Num 1000)))) (Num 200))
            + int (lag i))
         needed
         (slept @ [setTimeout_ms (Math_min (Math_max (Num 5) (Math_ceil (js_times (js_divide
                  (js_minus needed (cuTokens (refillTokens (Some b) l now))) b) (Num 1000)))) (Num 200))])
         (seen @ [(now, refillTokens (Some b) l now)])"
  by (simp add: enforceBudget_loop.simps Let_def)

lemma wait_Num:
  "b \<noteq> 0 \<Longrightarrow>
     setTimeout_ms (Math_min (Math_max (Num 5) (Math_ceil (js_times (js_divide
        (js_minus (Num x) (Num t)) (Num b)) (Num 1000)))) (Num 200))
       = min (max 5 \<lceil>(x - t) / b * 1000\<rceil>) 200"
proof -
  assume b: "b \<noteq> 0"
  have "min (max 5 (real_of_int \<lceil>(x - t) / b * 1000\<rceil>)) 200
          = real_of_int (min (max 5 \<lceil>(x - t) / b * 1000\<rceil>) 200)"
    by (simp add: min_def max_def)
  moreover have "1 \<le> min (max 5 \<lceil>(x - t) / b * 1000\<rceil>) 200"
    by simp
  ultimately show ?thesis
    using b by (simp del: of_int_min of_int_max)
qed

lemma refill_Num:
  "cuTokens l = Num t \<Longrightarrow>
     refillTokens (Some (Num b)) l now =
       (if lastRefill l < now
        then l\<lparr>cuTokens := Num (min b (t + real_of_int (now - lastRefill l) / 1000 * b)),
               lastRefill := now\<rparr>
        else l)"
  by (simp add: refillTokens_def Let_def)

lemma refill_range:
  assumes "0 \<le> b" "cuTokens l = Num t" "0 \<le> t" "t \<le> b"
  shows "\<exists>t1. cuTokens (refillTokens (Some (Num b)) l now) = Num t1 \<and> 0 \<le> t1 \<and> t1 \<le> b"
  using assms by (auto simp: refill_Num)

lemma refill_upper:
  assumes "cuTokens l = Num t" "t \<le> b"
  shows "\<exists>t1. cuTokens (refillTokens (Some (Num b)) l now) = Num t1 \<and> t1 \<le> b"
  using assms by (auto simp: refill_Num)

lemma refill_lastRefill:
  "lastRefill l \<le> now \<Longrightarrow> lastRefill (refillTokens (Some b) l now) \<le> now"
  by (auto simp: refillTokens_def Let_def)

lemma refill_NaN:
  "cuTokens l = NaN \<Longrightarrow> cuTokens (refillTokens (Some NaN) l now) = NaN"
  by (simp add: refillTokens_def Let_def)

lemma loop_starves:
  "cuTokens l = Num t \<Longrightarrow> t \<le> b \<Longrightarrow> b < x \<Longrightarrow>
     enforceBudget_loop fuel (Num b) lag i l now (Num x) slept seen = None"
proof (induction fuel arbitrary: i l t now slept seen)
  case 0
  then show ?case by (simp add: enforceBudget_loop.simps)
next
  case (Suc fuel)
  obtain t1 where t1: "cuTokens (refillTokens (Some (Num b)) l now) = Num t1" "t1 \<le> b"
    using refill_upper [OF Suc.prems(1,2)] by blast
  then have "\<not> js_ge (cuTokens (refillTokens (Some (Num b)) l now)) (Num x)"
    using Suc.prems(3) by simp
  then show ?case
    using Suc.IH [OF t1 Suc.prems(3)] by (simp add: loop_wait)
qed

text \<open>
  A budget of \<^verbatim>\<open>NaN\<close> starts the bucket at \<^verbatim>\<open>NaN\<close> and keeps it there, and no cost
  compares against it: nothing is admitted.
\<close>

lemma loop_NaN:
  "cuTokens l = NaN \<Longrightarrow> enforceBudget_loop fuel NaN lag i l now needed slept seen = None"
proof (induction fuel arbitrary: i l now slept seen)
  case 0
  then show ?case by (simp add: enforceBudget_loop.simps)
next
  case (Suc fuel)
  have nan: "cuTokens (refillTokens (Some NaN) l now) = NaN"
    using Suc.prems by (rule refill_NaN)
  then have "\<not> js_ge (cuTokens (refillTokens (Some NaN) l now)) needed"
    by (simp add: js_ge_def)
  then show ?case
    using Suc.IH [OF nan] by (simp add: loop_wait)
qed

text \<open>A cost that is no number is never admitted either, whatever the bucket holds.\<close>

lemma loop_no_number:
  "toNumber needed = None \<Longrightarrow> enforceBudget_loop fuel b lag i l now needed slept seen = None"
proof (induction fuel arbitrary: i l now slept seen)
  case 0
  then show ?case by (simp add: enforceBudget_loop.simps)
next
  case (Suc fuel)
  have "\<not> js_ge (cuTokens (refillTokens (Some b) l now)) needed"
    using Suc.prems js_ge_no_number by blast
  then show ?case
    using Suc.IH [OF Suc.prems] by (simp add: loop_wait)
qed

lemma setTimeout_ms_pos:
  "1 \<le> setTimeout_ms v"
  by (simp add: setTimeout_ms_def split: option.splits)

text \<open>
  The log of a call that returns: the first pass refills the bucket the call found, each
  later pass refills the bucket of the pass before at a later clock, every pass but the
  last found too few tokens, and the last one takes the cost from the bucket as it
  refilled it.
\<close>

lemma loop_trace:
  "enforceBudget_loop fuel b lag i l now needed slept seen = Some a \<Longrightarrow>
     \<exists>more. checks a = seen @ more \<and> more \<noteq> []
        \<and> hd more = (now, refillTokens (Some b) l now)
        \<and> (\<forall>p \<in> set (zip more (tl more)).
              fst (fst p) < fst (snd p)
              \<and> snd (snd p) = refillTokens (Some b) (snd (fst p)) (fst (snd p))
              \<and> \<not> js_ge (cuTokens (snd (fst p))) needed)
        \<and> js_ge (cuTokens (snd (last more))) needed
        \<and> bucket a = (snd (last more))\<lparr>cuTokens := js_minus (cuTokens (snd (last more))) needed\<rparr>
        \<and> clock a = fst (last more)"
proof (induction fuel arbitrary: i l now slept seen)
  case 0
  then show ?case by (simp add: enforceBudget_loop.simps)
next
  case (Suc fuel)
  let ?l1 = "refillTokens (Some b) l now"
  show ?case
  proof (cases "js_ge (cuTokens ?l1) needed")
    case True
    then have a: "a = \<lparr>bucket = ?l1\<lparr>cuTokens := js_minus (cuTokens ?l1) needed\<rparr>,
        clock = now, sleeps = slept, checks = seen @ [(now, ?l1)]\<rparr>"
      using Suc.prems by (simp add: loop_admit)
    show ?thesis
      by (rule exI [of _ "[(now, ?l1)]"]) (simp add: a True)
  next
    case False
    let ?d = "setTimeout_ms (Math_min (Math_max (Num 5) (Math_ceil (js_times (js_divide
                  (js_minus needed (cuTokens ?l1)) b) (Num 1000)))) (Num 200))"
    let ?now' = "now + ?d + int (lag i)"
    have run: "enforceBudget_loop fuel b lag (Suc i) ?l1 ?now' needed (slept @ [?d])
        (seen @ [(now, ?l1)]) = Some a"
      using Suc.prems unfolding loop_wait [OF False] .
    from Suc.IH [OF run] obtain more where
      m1: "checks a = (seen @ [(now, ?l1)]) @ more" and m2: "more \<noteq> []"
      and m3: "hd more = (?now', refillTokens (Some b) ?l1 ?now')"
      and m4: "\<forall>p \<in> set (zip more (tl more)).
              fst (fst p) < fst (snd p)
              \<and> snd (snd p) = refillTokens (Some b) (snd (fst p)) (fst (snd p))
              \<and> \<not> js_ge (cuTokens (snd (fst p))) needed"
      and m5: "js_ge (cuTokens (snd (last more))) needed"
      and m6: "bucket a = (snd (last more))\<lparr>cuTokens := js_minus (cuTokens (snd (last more))) needed\<rparr>"
      and m7: "clock a = fst (last more)"
      by blast
    have later: "now < ?now'"
      using setTimeout_ms_pos [of "Math_min (Math_max (Num 5) (Math_ceil (js_times (js_divide
                  (js_minus needed (cuTokens ?l1)) b) (Num 1000)))) (Num 200)"]
      by linarith
    obtain y ys where more: "more = y # ys"
      using m2 by (cases more) auto
    have y: "y = (?now', refillTokens (Some b) ?l1 ?now')"
      using m3 more by simp
    have zip: "zip ((now, ?l1) # more) (tl ((now, ?l1) # more))
        = ((now, ?l1), y) # zip more (tl more)"
      by (simp add: more)
    have chain: "\<forall>p \<in> set (zip ((now, ?l1) # more) (tl ((now, ?l1) # more))).
              fst (fst p) < fst (snd p)
              \<and> snd (snd p) = refillTokens (Some b) (snd (fst p)) (fst (snd p))
              \<and> \<not> js_ge (cuTokens (snd (fst p))) needed"
      unfolding zip using m4 later False by (simp add: y)
    have "checks a = seen @ ((now, ?l1) # more) \<and> (now, ?l1) # more \<noteq> []
        \<and> hd ((now, ?l1) # more) = (now, ?l1)
        \<and> js_ge (cuTokens (snd (last ((now, ?l1) # more)))) needed
        \<and> bucket a = (snd (last ((now, ?l1) # more)))
             \<lparr>cuTokens := js_minus (cuTokens (snd (last ((now, ?l1) # more)))) needed\<rparr>
        \<and> clock a = fst (last ((now, ?l1) # more))"
      using m1 m2 m5 m6 m7 by simp
    then show ?thesis
      using chain by blast
  qed
qed

text \<open>Every pass of the log finds a number of tokens between 0 and the capacity.\<close>

lemma loop_checks_range:
  assumes "0 \<le> b"
  shows "enforceBudget_loop fuel (Num b) lag i l now needed slept seen = Some a \<Longrightarrow>
     cuTokens l = Num t \<Longrightarrow> 0 \<le> t \<Longrightarrow> t \<le> b \<Longrightarrow>
     \<exists>more. checks a = seen @ more
        \<and> (\<forall>p \<in> set more. \<exists>u. cuTokens (snd p) = Num u \<and> 0 \<le> u \<and> u \<le> b)"
proof (induction fuel arbitrary: i l t now slept seen)
  case 0
  then show ?case by (simp add: enforceBudget_loop.simps)
next
  case (Suc fuel)
  let ?l1 = "refillTokens (Some (Num b)) l now"
  obtain t1 where t1: "cuTokens ?l1 = Num t1" "0 \<le> t1" "t1 \<le> b"
    using refill_range [OF assms Suc.prems(2,3,4)] by blast
  show ?case
  proof (cases "js_ge (cuTokens ?l1) needed")
    case True
    then have "checks a = seen @ [(now, ?l1)]"
      using Suc.prems(1) by (auto simp: loop_admit)
    then show ?thesis using t1 by simp
  next
    case False
    let ?d = "setTimeout_ms (Math_min (Math_max (Num 5) (Math_ceil (js_times (js_divide
                  (js_minus needed (cuTokens ?l1)) (Num b)) (Num 1000)))) (Num 200))"
    have run: "enforceBudget_loop fuel (Num b) lag (Suc i) ?l1 (now + ?d + int (lag i)) needed
        (slept @ [?d]) (seen @ [(now, ?l1)]) = Some a"
      using Suc.prems(1) unfolding loop_wait [OF False] .
    from Suc.IH [OF run t1] obtain more where
      "checks a = (seen @ [(now, ?l1)]) @ more"
      "\<forall>p \<in> set more. \<exists>u. cuTokens (snd p) = Num u \<and> 0 \<le> u \<and> u \<le> b"
      by blast
    then have "checks a = seen @ ((now, ?l1) # more)
        \<and> (\<forall>p \<in> set ((now, ?l1) # more). \<exists>u. cuTokens (snd p) = Num u \<and> 0 \<le> u \<and> u \<le> b)"
      using t1 by simp
    then show ?thesis by blast
  qed
qed

text \<open>When the clock is not behind the last refill, every pass leaves it at its own reading.\<close>

lemma loop_checks_clock:
  "enforceBudget_loop fuel b lag i l now needed slept seen = Some a \<Longrightarrow>
     lastRefill l \<le> now \<Longrightarrow>
     \<exists>more. checks a = seen @ more \<and> (\<forall>p \<in> set more. lastRefill (snd p) = fst p)"
proof (induction fuel arbitrary: i l now slept seen)
  case 0
  then show ?case by (simp add: enforceBudget_loop.simps)
next
  case (Suc fuel)
  let ?l1 = "refillTokens (Some b) l now"
  have l1: "lastRefill ?l1 = now"
    using Suc.prems(2) by (auto simp: refillTokens_def Let_def)
  show ?case
  proof (cases "js_ge (cuTokens ?l1) needed")
    case True
    then have "checks a = seen @ [(now, ?l1)]"
      using Suc.prems(1) by (auto simp: loop_admit)
    then show ?thesis using l1 by simp
  next
    case False
    let ?d = "setTimeout_ms (Math_min (Math_max (Num 5) (Math_ceil (js_times (js_divide
                  (js_minus needed (cuTokens ?l1)) b) (Num 1000)))) (Num 200))"
    have run: "enforceBudget_loop fuel b lag (Suc i) ?l1 (now + ?d + int (lag i)) needed
        (slept @ [?d]) (seen @ [(now, ?l1)]) = Some a"
      using Suc.prems(1) unfolding loop_wait [OF False] .
    have "lastRefill ?l1 \<le> now + ?d + int (lag i)"
      using l1 setTimeout_ms_pos [of "Math_min (Math_max (Num 5) (Math_ceil (js_times (js_divide
                  (js_minus needed (cuTokens ?l1)) b) (Num 1000)))) (Num 200)"]
      by linarith
    from Suc.IH [OF run this] obtain more where
      "checks a = (seen @ [(now, ?l1)]) @ more" "\<forall>p \<in> set more. lastRefill (snd p) = fst p"
      by blast
    then have "checks a = seen @ ((now, ?l1) # more)
        \<and> (\<forall>p \<in> set ((now, ?l1) # more). lastRefill (snd p) = fst p)"
      using l1 by simp
    then show ?thesis by blast
  qed
qed

lemma refill_is_number:
  "cuTokens l = Num t \<Longrightarrow> \<exists>t1. cuTokens (refillTokens (Some (Num b)) l now) = Num t1"
  by (simp add: refill_Num)

lemma wait_covers:
  assumes "1 \<le> b" "0 < deficit"
  shows "min deficit (b / 5) \<le> real_of_int (min (max 5 \<lceil>deficit / b * 1000\<rceil>) 200) * b / 1000"
proof (cases "\<lceil>deficit / b * 1000\<rceil> \<le> 200")
  case True
  have b0: "0 < b" using assms(1) by simp
  have "deficit / b * 1000 \<le> real_of_int \<lceil>deficit / b * 1000\<rceil>"
    by (rule le_of_int_ceiling)
  also have "\<dots> \<le> real_of_int (min (max 5 \<lceil>deficit / b * 1000\<rceil>) 200)"
    using True by simp
  finally have "deficit / b * 1000 \<le> real_of_int (min (max 5 \<lceil>deficit / b * 1000\<rceil>) 200)" .
  then have "deficit \<le> real_of_int (min (max 5 \<lceil>deficit / b * 1000\<rceil>) 200) * b / 1000"
    using b0 by (simp add: field_simps)
  then show ?thesis by simp
next
  case False
  then have "min (max 5 \<lceil>deficit / b * 1000\<rceil>) 200 = 200" by simp
  then show ?thesis by simp
qed

lemma refill_after_sleep:
  assumes "1 \<le> b" "cuTokens l = Num t" "lastRefill l \<le> now" "0 < d" "now + d \<le> now'"
  shows "\<exists>t1. cuTokens (refillTokens (Some (Num b)) l now') = Num t1
           \<and> min b (t + real_of_int d * b / 1000) \<le> t1"
proof -
  have pos: "lastRefill l < now'"
    using assms by simp
  have "real_of_int d \<le> real_of_int (now' - lastRefill l)"
    using assms by simp
  then have "real_of_int d * b \<le> real_of_int (now' - lastRefill l) * b"
    using assms(1) by (intro mult_right_mono) simp_all
  then have "real_of_int d * b / 1000 \<le> real_of_int (now' - lastRefill l) / 1000 * b"
    by simp
  then have "min b (t + real_of_int d * b / 1000)
      \<le> min b (t + real_of_int (now' - lastRefill l) / 1000 * b)"
    by (intro min.mono) simp_all
  moreover have "cuTokens (refillTokens (Some (Num b)) l now')
      = Num (min b (t + real_of_int (now' - lastRefill l) / 1000 * b))"
    using pos by (simp add: refill_Num [OF assms(2)])
  ultimately show ?thesis by blast
qed

lemma loop_admits_aux:
  assumes b1: "1 \<le> b" and nb: "x \<le> b"
  shows "cuTokens l = Num t \<Longrightarrow> lastRefill l \<le> now \<Longrightarrow>
     x - the (toNumber (cuTokens (refillTokens (Some (Num b)) l now))) \<le> real k * b / 5 \<Longrightarrow>
     \<exists>a. enforceBudget_loop (Suc k) (Num b) lag i l now (Num x) slept seen = Some a"
proof (induction k arbitrary: l t now i slept seen)
  case 0
  obtain t1 where t1: "cuTokens (refillTokens (Some (Num b)) l now) = Num t1"
    using refill_is_number [OF "0.prems"(1)] by blast
  then have "js_ge (cuTokens (refillTokens (Some (Num b)) l now)) (Num x)"
    using "0.prems"(3) by simp
  then show ?case by (simp add: loop_admit)
next
  case (Suc k)
  let ?l1 = "refillTokens (Some (Num b)) l now"
  obtain t1 where t1: "cuTokens ?l1 = Num t1"
    using refill_is_number [OF Suc.prems(1)] by blast
  have b0: "b \<noteq> 0" using b1 by simp
  show ?case
  proof (cases "x \<le> t1")
    case True
    then have "js_ge (cuTokens ?l1) (Num x)" using t1 by simp
    then show ?thesis by (simp add: loop_admit)
  next
    case False
    then have no: "\<not> js_ge (cuTokens ?l1) (Num x)" using t1 by simp
    let ?deficit = "x - t1"
    let ?d = "min (max 5 \<lceil>?deficit / b * 1000\<rceil>) 200"
    let ?now' = "now + ?d + int (lag i)"
    have dpos: "0 < ?deficit" using False by simp
    have d5: "0 < ?d" by simp
    have l1: "lastRefill ?l1 \<le> now" using Suc.prems(2) by (rule refill_lastRefill)
    then have l1': "lastRefill ?l1 \<le> ?now'" using d5 by linarith
    have cover: "min ?deficit (b / 5) \<le> real_of_int ?d * b / 1000"
      using b1 dpos by (rule wait_covers)
    obtain t2 where t2: "cuTokens (refillTokens (Some (Num b)) ?l1 ?now') = Num t2"
      and grown: "min b (t1 + real_of_int ?d * b / 1000) \<le> t2"
      using refill_after_sleep [OF b1 t1 l1 d5, of ?now'] by auto
    have "x - t2 \<le> x - min b (t1 + real_of_int ?d * b / 1000)"
      using grown by simp
    also have "\<dots> \<le> real k * b / 5"
    proof -
      have k0: "0 \<le> real k * b / 5" using b1 by simp
      have "?deficit - real_of_int ?d * b / 1000 \<le> real k * b / 5"
      proof (cases "?deficit \<le> b / 5")
        case True
        then have "?deficit \<le> real_of_int ?d * b / 1000" using cover by simp
        then show ?thesis using k0 by linarith
      next
        case False
        then have "b / 5 \<le> real_of_int ?d * b / 1000" using cover by simp
        moreover have "?deficit \<le> real (Suc k) * b / 5" using Suc.prems(3) t1 by simp
        ultimately show ?thesis by (simp add: field_simps)
      qed
      then show ?thesis using nb k0 by (simp add: min_def)
    qed
    finally have "x - the (toNumber (cuTokens (refillTokens (Some (Num b)) ?l1 ?now'))) \<le> real k * b / 5"
      using t2 by simp
    from Suc.IH [OF t1 l1' this]
    have "\<exists>a. enforceBudget_loop (Suc k) (Num b) lag (Suc i) ?l1 ?now' (Num x) (slept @ [?d])
        (seen @ [(now, ?l1)]) = Some a" .
    then show ?thesis
      unfolding loop_wait [OF no, of "Suc k" lag i slept seen] t1 wait_Num [OF b0] .
  qed
qed

lemma loop_admits:
  assumes "1 \<le> b" "x \<le> b" "cuTokens l = Num t" "0 \<le> t" "t \<le> b" "lastRefill l \<le> now"
  shows "\<exists>a. enforceBudget_loop 6 (Num b) lag i l now (Num x) slept seen = Some a"
proof -
  have b0: "0 \<le> b" using assms(1) by simp
  obtain t1 where "cuTokens (refillTokens (Some (Num b)) l now) = Num t1" "0 \<le> t1"
    using refill_range [OF b0 assms(3,4,5)] by blast
  then have "x - the (toNumber (cuTokens (refillTokens (Some (Num b)) l now))) \<le> real 5 * b / 5"
    using assms(2) by simp
  from loop_admits_aux [OF assms(1,2,3,6) this] show ?thesis
    by (simp add: eval_nat_numeral)
qed

lemma loop_sleeps_count:
  "enforceBudget_loop fuel b lag i l now needed slept seen = Some a \<Longrightarrow>
     length (sleeps a) < length slept + fuel"
proof (induction fuel arbitrary: i l now slept seen)
  case 0
  then show ?case by (simp add: enforceBudget_loop.simps)
next
  case (Suc fuel)
  show ?case
  proof (cases "js_ge (cuTokens (refillTokens (Some b) l now)) needed")
    case True
    then show ?thesis using Suc.prems by (auto simp: loop_admit)
  next
    case False
    show ?thesis
      using Suc.IH [OF Suc.prems [unfolded loop_wait [OF False]]] by simp
  qed
qed

lemma loop_sleeps:
  assumes "b \<noteq> 0"
  shows "enforceBudget_loop fuel (Num b) lag i l now (Num x) slept seen = Some a \<Longrightarrow>
     cuTokens l = Num t \<Longrightarrow>
     \<exists>more. sleeps a = slept @ more \<and> (\<forall>d \<in> set more. 5 \<le> d \<and> d \<le> 200)"
proof (induction fuel arbitrary: i l t now slept seen)
  case 0
  then show ?case by (simp add: enforceBudget_loop.simps)
next
  case (Suc fuel)
  let ?l1 = "refillTokens (Some (Num b)) l now"
  obtain t1 where t1: "cuTokens ?l1 = Num t1"
    using refill_is_number [OF Suc.prems(2)] by blast
  show ?case
  proof (cases "js_ge (cuTokens ?l1) (Num x)")
    case True
    then show ?thesis using Suc.prems(1) by (auto simp: loop_admit)
  next
    case False
    let ?d = "min (max 5 \<lceil>(x - t1) / b * 1000\<rceil>) 200"
    have "enforceBudget_loop fuel (Num b) lag (Suc i) ?l1 (now + ?d + int (lag i)) (Num x)
        (slept @ [?d]) (seen @ [(now, ?l1)]) = Some a"
      using Suc.prems(1) unfolding loop_wait [OF False] t1 wait_Num [OF assms] .
    from Suc.IH [OF this t1] obtain more where
      "sleeps a = (slept @ [?d]) @ more" "\<forall>d \<in> set more. 5 \<le> d \<and> d \<le> 200"
      by blast
    then have "sleeps a = slept @ (?d # more) \<and> (\<forall>d \<in> set (?d # more). 5 \<le> d \<and> d \<le> 200)"
      by simp
    then show ?thesis by blast
  qed
qed

text \<open>
  Where the specification's promise holds: a cost within the capacity is admitted after
  at most five sleeps, each between 5 and 200 milliseconds.
\<close>

lemma enforceBudget_admits_within_capacity:
  assumes "CU_BUDGET_PER_SEC env = Some (Num b)" and "x \<le> b"
    and "cuTokens l = Num t" and "0 \<le> t" and "t \<le> b" and "lastRefill l \<le> now"
  shows "\<exists>a. enforceBudget 6 (CU_BUDGET_PER_SEC env) lag l now (Num x) = Some a
           \<and> length (sleeps a) \<le> 5 \<and> (\<forall>d \<in> set (sleeps a). 5 \<le> d \<and> d \<le> 200)"
proof -
  have b1: "1 \<le> b"
    using assms(1) by (rule CU_BUDGET_PER_SEC_at_least_1)
  then have b0: "b \<noteq> 0" by simp
  obtain a where a: "enforceBudget_loop 6 (Num b) lag 0 l now (Num x) [] [] = Some a"
    using loop_admits [OF b1 assms(2-6)] by blast
  obtain more where more: "sleeps a = [] @ more" "\<forall>d \<in> set more. 5 \<le> d \<and> d \<le> 200"
    using loop_sleeps [OF b0 a assms(3)] by blast
  have "length (sleeps a) < 6"
    using loop_sleeps_count [OF a] by simp
  then show ?thesis
    using a more by (simp add: enforceBudget_def assms(1))
qed

text \<open>
  A setting that is no numeral turns the limiter on with a budget of \<^verbatim>\<open>NaN\<close>: from the
  bucket as it is first filled, no request is admitted, not even one of cost 0.
\<close>

lemma enforceBudget_NaN_budget:
  "enforceBudget fuel (CU_BUDGET_PER_SEC (Some NaN)) lag
     (initial_limiter (CU_BUDGET_PER_SEC (Some NaN)) start) now needed = None"
  by (simp add: enforceBudget_def CU_BUDGET_PER_SEC_NaN initial_limiter_def loop_NaN)

text \<open>
  The clock of each pass after the first is the clock of the pass before, plus the sleep
  taken there, plus the lateness of that timer.
\<close>

lemma loop_clocks:
  "enforceBudget_loop fuel b lag i l now needed slept seen = Some a \<Longrightarrow>
     \<exists>passes naps. checks a = seen @ passes \<and> sleeps a = slept @ naps
        \<and> length passes = Suc (length naps)
        \<and> (\<forall>j < length naps.
              fst (passes ! Suc j) = fst (passes ! j) + naps ! j + int (lag (i + j))
              \<and> naps ! j = setTimeout_ms (Math_min (Math_max (Num 5) (Math_ceil (js_times
                    (js_divide (js_minus needed (cuTokens (snd (passes ! j)))) b) (Num 1000))))
                    (Num 200)))"
proof (induction fuel arbitrary: i l now slept seen)
  case 0
  then show ?case by (simp add: enforceBudget_loop.simps)
next
  case (Suc fuel)
  let ?l1 = "refillTokens (Some b) l now"
  show ?case
  proof (cases "js_ge (cuTokens ?l1) needed")
    case True
    then have "checks a = seen @ [(now, ?l1)] \<and> sleeps a = slept @ []"
      using Suc.prems by (auto simp: loop_admit)
    then show ?thesis
      by (intro exI [of _ "[(now, ?l1)]"] exI [of _ "[]"]) simp
  next
    case False
    let ?d = "setTimeout_ms (Math_min (Math_max (Num 5) (Math_ceil (js_times (js_divide
                  (js_minus needed (cuTokens ?l1)) b) (Num 1000)))) (Num 200))"
    let ?now' = "now + ?d + int (lag i)"
    have run: "enforceBudget_loop fuel b lag (Suc i) ?l1 ?now' needed (slept @ [?d])
        (seen @ [(now, ?l1)]) = Some a"
      using Suc.prems unfolding loop_wait [OF False] .
    from Suc.IH [OF run] obtain passes naps where
      p1: "checks a = (seen @ [(now, ?l1)]) @ passes" and p2: "sleeps a = (slept @ [?d]) @ naps"
      and p3: "length passes = Suc (length naps)"
      and p4: "\<forall>j < length naps.
              fst (passes ! Suc j) = fst (passes ! j) + naps ! j + int (lag (Suc i + j))
              \<and> naps ! j = setTimeout_ms (Math_min (Math_max (Num 5) (Math_ceil (js_times
                    (js_divide (js_minus needed (cuTokens (snd (passes ! j)))) b) (Num 1000))))
                    (Num 200))"
      by blast
    from loop_trace [OF run] obtain more where
      "checks a = (seen @ [(now, ?l1)]) @ more" and "more \<noteq> []"
      and "hd more = (?now', refillTokens (Some b) ?l1 ?now')"
      by blast
    then have "passes \<noteq> []" and "hd passes = (?now', refillTokens (Some b) ?l1 ?now')"
      using p1 by auto
    then have first: "fst (passes ! 0) = ?now'"
      by (simp add: hd_conv_nth)
    have "\<forall>j < length (?d # naps).
              fst (((now, ?l1) # passes) ! Suc j)
                = fst (((now, ?l1) # passes) ! j) + (?d # naps) ! j + int (lag (i + j))
              \<and> (?d # naps) ! j = setTimeout_ms (Math_min (Math_max (Num 5) (Math_ceil (js_times
                    (js_divide (js_minus needed (cuTokens (snd (((now, ?l1) # passes) ! j)))) b)
                    (Num 1000)))) (Num 200))"
    proof (intro allI impI)
      fix j assume j: "j < length (?d # naps)"
      show "fst (((now, ?l1) # passes) ! Suc j)
                = fst (((now, ?l1) # passes) ! j) + (?d # naps) ! j + int (lag (i + j))
              \<and> (?d # naps) ! j = setTimeout_ms (Math_min (Math_max (Num 5) (Math_ceil (js_times
                    (js_divide (js_minus needed (cuTokens (snd (((now, ?l1) # passes) ! j)))) b)
                    (Num 1000)))) (Num 200))"
      proof (cases j)
        case 0
        then show ?thesis using first by simp
      next
        case (Suc k)
        then have "k < length naps" using j by simp
        then show ?thesis using p4 Suc by simp
      qed
    qed
    moreover have "checks a = seen @ ((now, ?l1) # passes) \<and> sleeps a = slept @ (?d # naps)
        \<and> length ((now, ?l1) # passes) = Suc (length (?d # naps))"
      using p1 p2 p3 by simp
    ultimately show ?thesis by blast
  qed
qed

text \<open>
  C7. With no budget configured, \<^verbatim>\<open>enforceBudget\<close> returns at once and leaves the bucket as
  it was, and so does \<^verbatim>\<open>refillTokens\<close>. With a budget \<open>b\<close> configured the bucket starts
  with \<open>b\<close> tokens. For a bucket holding between 0 and \<open>b\<close> tokens: a refill at a clock
  past the last one gives \<open>min b (tokens + elapsed seconds * b)\<close>, and at any other
  clock it changes nothing; a cost that the bucket covers once refilled is admitted in
  the first pass; and when a call for a cost \<open>x\<close> returns, its log is not empty, the
  first pass refilled the bucket the call found, each later pass refilled the bucket of
  the pass before at a later clock, every pass found between 0 and \<open>b\<close> tokens, every
  pass but the last found fewer than \<open>x\<close>, and the last found at least \<open>x\<close> and exactly
  \<open>x\<close> was taken from the bucket as that pass refilled it; between two passes lie the
  sleep that the deficit of the earlier one asks for and the lateness of its timer. So
  the tokens left are at least 0 and at most \<open>b - x\<close>, which is at most \<open>b\<close> for a cost
  that is not negative.
\<close>

theorem token_bucket_accounting:
  assumes "CU_BUDGET_PER_SEC env = Some (Num b)"
    and "cuTokens l = Num t" and "0 \<le> t" and "t \<le> b"
  shows "enforceBudget fuel (CU_BUDGET_PER_SEC None) lag l now needed
            = Some \<lparr>bucket = l, clock = now, sleeps = [], checks = []\<rparr>
       \<and> refillTokens (CU_BUDGET_PER_SEC None) l now = l
       \<and> initial_limiter (CU_BUDGET_PER_SEC env) start = \<lparr>cuTokens = Num b, lastRefill = start\<rparr>
       \<and> (\<forall>c u clk. cuTokens c = Num u \<longrightarrow>
            refillTokens (Some (Num b)) c clk
              = (if lastRefill c < clk
                 then c\<lparr>cuTokens := Num (min b (u + real_of_int (clk - lastRefill c) / 1000 * b)),
                        lastRefill := clk\<rparr>
                 else c))
       \<and> (\<forall>u. cuTokens (refillTokens (Some (Num b)) l now) = Num u \<and> x \<le> u \<longrightarrow>
            enforceBudget (Suc fuel) (Some (Num b)) lag l now (Num x)
              = Some \<lparr>bucket = (refillTokens (Some (Num b)) l now)\<lparr>cuTokens := Num (u - x)\<rparr>,
                      clock = now, sleeps = [],
                      checks = [(now, refillTokens (Some (Num b)) l now)]\<rparr>)
       \<and> (\<forall>a. enforceBudget fuel (Some (Num b)) lag l now (Num x) = Some a \<longrightarrow>
            checks a \<noteq> []
            \<and> hd (checks a) = (now, refillTokens (Some (Num b)) l now)
            \<and> (\<forall>p \<in> set (zip (checks a) (tl (checks a))).
                  fst (fst p) < fst (snd p)
                  \<and> snd (snd p) = refillTokens (Some (Num b)) (snd (fst p)) (fst (snd p))
                  \<and> (\<exists>u. cuTokens (snd (fst p)) = Num u \<and> u < x))
            \<and> (\<forall>p \<in> set (checks a). \<exists>u. cuTokens (snd p) = Num u \<and> 0 \<le> u \<and> u \<le> b)
            \<and> (lastRefill l \<le> now \<longrightarrow> (\<forall>p \<in> set (checks a). lastRefill (snd p) = fst p))
            \<and> (\<exists>u. cuTokens (snd (last (checks a))) = Num u \<and> x \<le> u
                  \<and> bucket a = (snd (last (checks a)))\<lparr>cuTokens := Num (u - x)\<rparr>)
            \<and> clock a = fst (last (checks a))
            \<and> length (checks a) = Suc (length (sleeps a))
            \<and> (\<forall>j < length (sleeps a).
                  fst (checks a ! Suc j) = fst (checks a ! j) + sleeps a ! j + int (lag j)
                  \<and> (\<exists>u. cuTokens (snd (checks a ! j)) = Num u
                         \<and> sleeps a ! j = min (max 5 \<lceil>(x - u) / b * 1000\<rceil>) 200))
            \<and> (\<exists>left. cuTokens (bucket a) = Num left \<and> 0 \<le> left \<and> left \<le> b - x
                  \<and> (0 \<le> x \<longrightarrow> left \<le> b)))"
proof -
  have b1: "1 \<le> b"
    using assms(1) by (rule CU_BUDGET_PER_SEC_at_least_1)
  then have b0: "0 \<le> b" by simp
  have off: "enforceBudget fuel (CU_BUDGET_PER_SEC None) lag l now needed
            = Some \<lparr>bucket = l, clock = now, sleeps = [], checks = []\<rparr>"
      "refillTokens (CU_BUDGET_PER_SEC None) l now = l"
    by (simp_all add: enforceBudget_def refillTokens_def CU_BUDGET_PER_SEC_def)
  have full: "initial_limiter (CU_BUDGET_PER_SEC env) start = \<lparr>cuTokens = Num b, lastRefill = start\<rparr>"
    by (simp add: initial_limiter_def assms(1))
  have refill: "\<forall>c u clk. cuTokens c = Num u \<longrightarrow>
            refillTokens (Some (Num b)) c clk
              = (if lastRefill c < clk
                 then c\<lparr>cuTokens := Num (min b (u + real_of_int (clk - lastRefill c) / 1000 * b)),
                        lastRefill := clk\<rparr>
                 else c)"
    using refill_Num by blast
  have admit: "enforceBudget (Suc fuel) (Some (Num b)) lag l now (Num x)
      = Some \<lparr>bucket = (refillTokens (Some (Num b)) l now)\<lparr>cuTokens := Num (u - x)\<rparr>,
              clock = now, sleeps = [],
              checks = [(now, refillTokens (Some (Num b)) l now)]\<rparr>"
    if "cuTokens (refillTokens (Some (Num b)) l now) = Num u \<and> x \<le> u" for u
    using that by (simp add: enforceBudget_def loop_admit)
  have log: "checks a \<noteq> []
            \<and> hd (checks a) = (now, refillTokens (Some (Num b)) l now)
            \<and> (\<forall>p \<in> set (zip (checks a) (tl (checks a))).
                  fst (fst p) < fst (snd p)
                  \<and> snd (snd p) = refillTokens (Some (Num b)) (snd (fst p)) (fst (snd p))
                  \<and> (\<exists>u. cuTokens (snd (fst p)) = Num u \<and> u < x))
            \<and> (\<forall>p \<in> set (checks a). \<exists>u. cuTokens (snd p) = Num u \<and> 0 \<le> u \<and> u \<le> b)
            \<and> (lastRefill l \<le> now \<longrightarrow> (\<forall>p \<in> set (checks a). lastRefill (snd p) = fst p))
            \<and> (\<exists>u. cuTokens (snd (last (checks a))) = Num u \<and> x \<le> u
                  \<and> bucket a = (snd (last (checks a)))\<lparr>cuTokens := Num (u - x)\<rparr>)
            \<and> clock a = fst (last (checks a))
            \<and> length (checks a) = Suc (length (sleeps a))
            \<and> (\<forall>j < length (sleeps a).
                  fst (checks a ! Suc j) = fst (checks a ! j) + sleeps a ! j + int (lag j)
                  \<and> (\<exists>u. cuTokens (snd (checks a ! j)) = Num u
                         \<and> sleeps a ! j = min (max 5 \<lceil>(x - u) / b * 1000\<rceil>) 200))
            \<and> (\<exists>left. cuTokens (bucket a) = Num left \<and> 0 \<le> left \<and> left \<le> b - x
                  \<and> (0 \<le> x \<longrightarrow> left \<le> b))"
    if "enforceBudget fuel (Some (Num b)) lag l now (Num x) = Some a" for a
  proof -
    have run: "enforceBudget_loop fuel (Num b) lag 0 l now (Num x) [] [] = Some a"
      using that by (simp add: enforceBudget_def)
    from loop_trace [OF run] have
      t1: "checks a \<noteq> []"
      and t2: "hd (checks a) = (now, refillTokens (Some (Num b)) l now)"
      and t3: "\<forall>p \<in> set (zip (checks a) (tl (checks a))).
              fst (fst p) < fst (snd p)
              \<and> snd (snd p) = refillTokens (Some (Num b)) (snd (fst p)) (fst (snd p))
              \<and> \<not> js_ge (cuTokens (snd (fst p))) (Num x)"
      and t4: "js_ge (cuTokens (snd (last (checks a)))) (Num x)"
      and t5: "bucket a = (snd (last (checks a)))
                 \<lparr>cuTokens := js_minus (cuTokens (snd (last (checks a)))) (Num x)\<rparr>"
      and t6: "clock a = fst (last (checks a))"
      by auto
    from loop_checks_range [OF b0 run assms(2,3,4)] have
      range: "\<forall>p \<in> set (checks a). \<exists>u. cuTokens (snd p) = Num u \<and> 0 \<le> u \<and> u \<le> b"
      by auto
    have clockwise: "\<forall>p \<in> set (checks a). lastRefill (snd p) = fst p" if "lastRefill l \<le> now"
      using loop_checks_clock [OF run that] by auto
    have failed: "\<forall>p \<in> set (zip (checks a) (tl (checks a))).
              fst (fst p) < fst (snd p)
              \<and> snd (snd p) = refillTokens (Some (Num b)) (snd (fst p)) (fst (snd p))
              \<and> (\<exists>u. cuTokens (snd (fst p)) = Num u \<and> u < x)"
    proof
      fix p assume p: "p \<in> set (zip (checks a) (tl (checks a)))"
      then have "fst p \<in> set (checks a)"
        by (metis prod.collapse set_zip_leftD)
      then obtain u where u: "cuTokens (snd (fst p)) = Num u"
        using range by blast
      moreover have "\<not> js_ge (cuTokens (snd (fst p))) (Num x)"
        using t3 p by blast
      ultimately have "u < x" by simp
      then show "fst (fst p) < fst (snd p)
              \<and> snd (snd p) = refillTokens (Some (Num b)) (snd (fst p)) (fst (snd p))
              \<and> (\<exists>u. cuTokens (snd (fst p)) = Num u \<and> u < x)"
        using t3 p u by blast
    qed
    from loop_clocks [OF run] have
      len: "length (checks a) = Suc (length (sleeps a))"
      and naps: "\<forall>j < length (sleeps a).
              fst (checks a ! Suc j) = fst (checks a ! j) + sleeps a ! j + int (lag j)
              \<and> sleeps a ! j = setTimeout_ms (Math_min (Math_max (Num 5) (Math_ceil (js_times
                    (js_divide (js_minus (Num x) (cuTokens (snd (checks a ! j)))) (Num b))
                    (Num 1000)))) (Num 200))"
      by auto
    have timed: "\<forall>j < length (sleeps a).
              fst (checks a ! Suc j) = fst (checks a ! j) + sleeps a ! j + int (lag j)
              \<and> (\<exists>u. cuTokens (snd (checks a ! j)) = Num u
                     \<and> sleeps a ! j = min (max 5 \<lceil>(x - u) / b * 1000\<rceil>) 200)"
    proof (intro allI impI)
      fix j assume j: "j < length (sleeps a)"
      then have "checks a ! j \<in> set (checks a)"
        using len by simp
      then obtain u where u: "cuTokens (snd (checks a ! j)) = Num u"
        using range by blast
      have "b \<noteq> 0" using b1 by simp
      then have "sleeps a ! j = min (max 5 \<lceil>(x - u) / b * 1000\<rceil>) 200"
        using naps j u wait_Num [of b x u] by simp
      then show "fst (checks a ! Suc j) = fst (checks a ! j) + sleeps a ! j + int (lag j)
              \<and> (\<exists>u. cuTokens (snd (checks a ! j)) = Num u
                     \<and> sleeps a ! j = min (max 5 \<lceil>(x - u) / b * 1000\<rceil>) 200)"
        using naps j u by blast
    qed
    have "last (checks a) \<in> set (checks a)"
      using t1 by simp
    then obtain u where u: "cuTokens (snd (last (checks a))) = Num u" "0 \<le> u" "u \<le> b"
      using range by blast
    have xu: "x \<le> u"
      using t4 u(1) by simp
    have taken: "bucket a = (snd (last (checks a)))\<lparr>cuTokens := Num (u - x)\<rparr>"
      using t5 u(1) by simp
    then have left: "cuTokens (bucket a) = Num (u - x)"
      by simp
    have "\<exists>left. cuTokens (bucket a) = Num left \<and> 0 \<le> left \<and> left \<le> b - x
                  \<and> (0 \<le> x \<longrightarrow> left \<le> b)"
      using left xu u(3) by (intro exI [of _ "u - x"]) simp
    moreover have "\<exists>u. cuTokens (snd (last (checks a))) = Num u \<and> x \<le> u
                  \<and> bucket a = (snd (last (checks a)))\<lparr>cuTokens := Num (u - x)\<rparr>"
      using u(1) xu taken by blast
    ultimately show ?thesis
      using t1 t2 failed range clockwise t6 len timed by blast
  qed
  show ?thesis
    using off full refill admit log by blast
qed

theorem token_bucket_accounting_witness:
  "CU_BUDGET_PER_SEC (Some (Num 10)) = Some (Num 10)
   \<and> enforceBudget 0 (CU_BUDGET_PER_SEC None) (late_by 300) \<lparr>cuTokens = Num 4, lastRefill = 1000\<rparr> 1000 (Num 5)
       = Some \<lparr>bucket = \<lparr>cuTokens = Num 4, lastRefill = 1000\<rparr>, clock = 1000, sleeps = [], checks = []\<rparr>
   \<and> refillTokens (Some (Num 10)) \<lparr>cuTokens = Num 4, lastRefill = 1000\<rparr> 1400
       = \<lparr>cuTokens = Num 8, lastRefill = 1400\<rparr>
   \<and> enforceBudget 1 (Some (Num 10)) (late_by 300) \<lparr>cuTokens = Num 4, lastRefill = 1000\<rparr> 1500 (Num 5)
       = Some \<lparr>bucket = \<lparr>cuTokens = Num 4, lastRefill = 1500\<rparr>, clock = 1500, sleeps = [],
               checks = [(1500, \<lparr>cuTokens = Num 9, lastRefill = 1500\<rparr>)]\<rparr>
   \<and> enforceBudget 2 (Some (Num 10)) (late_by 300) \<lparr>cuTokens = Num 4, lastRefill = 1000\<rparr> 1000 (Num 5)
       = Some \<lparr>bucket = \<lparr>cuTokens = Num 3, lastRefill = 1400\<rparr>, clock = 1400, sleeps = [100],
               checks = [(1000, \<lparr>cuTokens = Num 4, lastRefill = 1000\<rparr>),
                         (1400, \<lparr>cuTokens = Num 8, lastRefill = 1400\<rparr>)]\<rparr>
   \<and> (\<exists>left. cuTokens \<lparr>cuTokens = Num 3, lastRefill = 1400\<rparr> = Num left \<and> 0 \<le> left \<and> left \<le> 10 - 5)"
proof -
  let ?l = "\<lparr>cuTokens = Num 4, lastRefill = 1000\<rparr>"
  let ?a = "\<lparr>bucket = \<lparr>cuTokens = Num 3, lastRefill = 1400\<rparr>, clock = 1400, sleeps = [100],
             checks = [(1000, \<lparr>cuTokens = Num 4, lastRefill = 1000\<rparr>),
                       (1400, \<lparr>cuTokens = Num 8, lastRefill = 1400\<rparr>)]\<rparr>"
  have h1: "CU_BUDGET_PER_SEC (Some (Num 10)) = Some (Num 10)"
    by (simp add: CU_BUDGET_PER_SEC_def)
  have h2: "cuTokens ?l = Num 4" and h3: "(0::real) \<le> 4" and h4: "(4::real) \<le> 10"
    by simp_all
  have run: "enforceBudget 2 (Some (Num 10)) (late_by 300) ?l 1000 (Num 5) = Some ?a"
    by (simp add: enforceBudget_def enforceBudget_loop.simps refillTokens_def late_by_def
        setTimeout_ms_def Let_def eval_nat_numeral)
  have r: "refillTokens (Some (Num 10)) ?l 1500 = \<lparr>cuTokens = Num 9, lastRefill = 1500\<rparr>"
    by (simp add: refillTokens_def)
  note acc = token_bucket_accounting [OF h1 h2 h3 h4]
  have off: "enforceBudget 0 (CU_BUDGET_PER_SEC None) (late_by 300) ?l 1000 (Num 5)
       = Some \<lparr>bucket = ?l, clock = 1000, sleeps = [], checks = []\<rparr>"
    using acc [of 0 "late_by 300" 1000 "Num 5" 0 5] by blast
  have "refillTokens (Some (Num 10)) ?l 1400
       = (if lastRefill ?l < 1400
          then ?l\<lparr>cuTokens := Num (min 10 (4 + real_of_int (1400 - lastRefill ?l) / 1000 * 10)),
                  lastRefill := 1400\<rparr>
          else ?l)"
    using acc [of 0 "late_by 300" 1000 "Num 5" 0 5] h2 by blast
  then have refill: "refillTokens (Some (Num 10)) ?l 1400 = \<lparr>cuTokens = Num 8, lastRefill = 1400\<rparr>"
    by simp
  have "enforceBudget (Suc 0) (Some (Num 10)) (late_by 300) ?l 1500 (Num 5)
       = Some \<lparr>bucket = (refillTokens (Some (Num 10)) ?l 1500)\<lparr>cuTokens := Num (9 - 5)\<rparr>,
               clock = 1500, sleeps = [],
               checks = [(1500, refillTokens (Some (Num 10)) ?l 1500)]\<rparr>"
    using acc [of 0 "late_by 300" 1500 "Num 5" 0 5] r by simp
  then have first: "enforceBudget 1 (Some (Num 10)) (late_by 300) ?l 1500 (Num 5)
       = Some \<lparr>bucket = \<lparr>cuTokens = Num 4, lastRefill = 1500\<rparr>, clock = 1500, sleeps = [],
               checks = [(1500, \<lparr>cuTokens = Num 9, lastRefill = 1500\<rparr>)]\<rparr>"
    by (simp add: r)
  have "\<exists>left. cuTokens (bucket ?a) = Num left \<and> 0 \<le> left \<and> left \<le> 10 - 5 \<and> (0 \<le> (5::real) \<longrightarrow> left \<le> 10)"
    using acc [of 2 "late_by 300" 1000 "Num 5" 0 5] run by blast
  then have left: "\<exists>left. cuTokens \<lparr>cuTokens = Num 3, lastRefill = 1400\<rparr> = Num left \<and> 0 \<le> left \<and> left \<le> 10 - 5"
    by simp
  show ?thesis
    using h1 off refill first run left by blast
qed

text \<open>
  C8, at an input on which the promise fails. With a budget of 10 per second the bucket
  never holds more than 10 tokens, so a request that costs 20 (one \<^verbatim>\<open>eth_getLogs\<close>) is
  not admitted, however many iterations the loop is given and whatever the clock does.
\<close>

theorem enforceBudget_starves_above_capacity:
  "enforceBudget fuel (CU_BUDGET_PER_SEC (Some (Num 10))) lag
     (initial_limiter (CU_BUDGET_PER_SEC (Some (Num 10))) start) now (Num 20) = None"
  by (simp add: enforceBudget_def CU_BUDGET_PER_SEC_def initial_limiter_def
      loop_starves [of _ 10 10 20])

section \<open>Properties of the instrumented fetch\<close>

text \<open>The bodies for which \<^verbatim>\<open>parsePayload\<close> answers the empty list.\<close>

lemma parsePayload_empty_iff:
  "parsePayload s parsed = [] \<longleftrightarrow>
     s = None \<or> s = Some [] \<or> parsed = None
     \<or> (\<exists>j. parsed = Some j \<and> \<not> isArray (Some j)
            \<and> \<not> (truthy (Some j) \<and> truthy (getProp j ''method'')))
     \<or> (\<exists>js. parsed = Some (JArr js) \<and> (js = [] \<or> JNull \<in> set js))"
  by (auto simp: parsePayload_def split: option.splits json.splits)

lemma recordUsage_nothing:
  "last (estCusTimeline (recordUsage m ep [] t)) = \<lparr>ts = t, cus = Num 0, endpoint = ep\<rparr>
   \<and> callsByMethod (recordUsage m ep [] t) = callsByMethod m
   \<and> estCusByMethod (recordUsage m ep [] t) = estCusByMethod m
   \<and> byEndpoint (recordUsage m ep [] t) ep
       = Some \<lparr>calls = (case byEndpoint m ep of None \<Rightarrow> 0 | Some e \<Rightarrow> calls e) + 1,
               estCus = js_plus (case byEndpoint m ep of None \<Rightarrow> Num 0 | Some e \<Rightarrow> estCus e) (Num 0)\<rparr>"
  by (auto simp: recordUsage_def Let_def split: option.splits)

text \<open>
  A request with no call in its body costs 0. Without a budget, and with a budget that
  is a number and a bucket that is not in debt, it is admitted in the first pass, with
  no sleep and no token taken.
\<close>

lemma fetch_unmetered_off:
  assumes "parsePayload s parsed = []"
  shows "instrumentedFetch fuel (CU_BUDGET_PER_SEC None) user lag endpointUrl host m l now
            s parsed (Inr hs) recordedAt
          = Some \<lparr>response = Inr hs,
                  meter = recordUsage (case hs of None \<Rightarrow> m | Some entries \<Rightarrow> recordHeaders entries m)
                            (endpointHost endpointUrl host) [] recordedAt,
                  gate = \<lparr>bucket = l, clock = now, sleeps = [], checks = []\<rparr>\<rparr>"
  using assms by (simp add: instrumentedFetch_def enforceBudget_def CU_BUDGET_PER_SEC_def)

lemma fetch_unmetered_on:
  assumes "parsePayload s parsed = []"
    and "CU_BUDGET_PER_SEC env = Some (Num b)" and "cuTokens l = Num t" and "0 \<le> t"
  shows "instrumentedFetch (Suc fuel) (CU_BUDGET_PER_SEC env) user lag endpointUrl host m l now
            s parsed (Inr hs) recordedAt
          = Some \<lparr>response = Inr hs,
                  meter = recordUsage (case hs of None \<Rightarrow> m | Some entries \<Rightarrow> recordHeaders entries m)
                            (endpointHost endpointUrl host) [] recordedAt,
                  gate = \<lparr>bucket = refillTokens (Some (Num b)) l now, clock = now, sleeps = [],
                          checks = [(now, refillTokens (Some (Num b)) l now)]\<rparr>\<rparr>"
proof -
  have "1 \<le> b" using assms(2) by (rule CU_BUDGET_PER_SEC_at_least_1)
  then have "\<exists>t1. cuTokens (refillTokens (Some (Num b)) l now) = Num t1 \<and> 0 \<le> t1"
    using assms(3,4) by (auto simp: refill_Num)
  then obtain t1 where t1: "cuTokens (refillTokens (Some (Num b)) l now) = Num t1" "0 \<le> t1"
    by blast
  have same: "(refillTokens (Some (Num b)) l now)\<lparr>cuTokens := Num t1\<rparr>
      = refillTokens (Some (Num b)) l now"
    using t1(1) by (metis limiter.surjective limiter.update_convs(1))
  show ?thesis
    using assms(1) t1 by (simp add: instrumentedFetch_def enforceBudget_def assms(2) loop_admit same)
qed

text \<open>
  With a setting that is no numeral the limiter is on and admits nothing: no request
  is dispatched, whatever its body.
\<close>

lemma fetch_NaN_budget:
  "instrumentedFetch fuel (CU_BUDGET_PER_SEC (Some NaN)) user lag endpointUrl host m
     (initial_limiter (CU_BUDGET_PER_SEC (Some NaN)) start) now s parsed answer recordedAt = None"
  by (simp add: instrumentedFetch_def enforceBudget_NaN_budget)

text \<open>
  A request for a method named \<^verbatim>\<open>constructor\<close> has a cost that is no number: with any
  budget on, it is not admitted.
\<close>

lemma fetch_inherited_name:
  assumes "s \<noteq> None" and "s \<noteq> Some []"
  shows "instrumentedFetch fuel (Some b) Map.empty lag endpointUrl host m l now
           s (Some (JObj [(''method'', JStr ''constructor'')])) answer recordedAt = None"
proof -
  have "parsePayload s (Some (JObj [(''method'', JStr ''constructor'')]))
      = [(Some (JStr ''constructor''), None)]"
    using assms by (simp add: parsePayload_def)
  moreover have "weightFor Map.empty (Some (JStr ''constructor'')) None = Member ''constructor''"
    by (simp add: weightFor_def get_property_def toPropertyKey_def OBJECT_PROTOTYPE_def)
  ultimately show ?thesis
    by (simp add: instrumentedFetch_def enforceBudget_def loop_no_number)
qed

text \<open>
  A batch without \<^verbatim>\<open>null\<close> gives one call for each element, whether or not the element
  has a \<^verbatim>\<open>method\<close>.
\<close>

lemma parsePayload_batch:
  assumes "s \<noteq> None" and "s \<noteq> Some []" and "JNull \<notin> set js"
  shows "parsePayload s (Some (JArr js))
           = map (\<lambda>j. (getProp j ''method'', getProp j ''params'')) js"
  using assms by (auto simp: parsePayload_def)

text \<open>One \<^verbatim>\<open>null\<close> in a batch empties the list of calls, whatever else the batch holds.\<close>

lemma parsePayload_null_in_batch:
  "parsePayload s (Some (JArr [JObj [(''method'', JStr ''eth_getLogs'')], JNull])) = []"
  by (simp add: parsePayload_def)

text \<open>
  C10, at an input on which the code misses it. The body \<^verbatim>\<open>[{}]\<close> has no \<^verbatim>\<open>method\<close>
  field, yet \<^verbatim>\<open>parsePayload\<close> gives one call for it, with \<^verbatim>\<open>method\<close> and \<^verbatim>\<open>params\<close>
  undefined, which costs the fallback weight 5. With a budget of 10 per second and an
  empty bucket the request waits 500 ms in three sleeps, and the usage recorded has
  cost 5.
\<close>

theorem batch_without_method_is_metered:
  "parsePayload (Some ''[{}]'') (Some (JArr [JObj []])) = [(None, None)]
   \<and> weightFor Map.empty None None = Num 5
   \<and> map_option (sleeps \<circ> gate)
       (instrumentedFetch 4 (CU_BUDGET_PER_SEC (Some (Num 10))) Map.empty punctual
          ''https://rpc.example'' (Some ''rpc.example'') initial_metrics
          \<lparr>cuTokens = Num 0, lastRefill = 0\<rparr> 0
          (Some ''[{}]'') (Some (JArr [JObj []])) (Inr (Some [])) 600)
      = Some [200, 200, 100]
   \<and> map_option (estCusTimeline \<circ> meter)
       (instrumentedFetch 4 (CU_BUDGET_PER_SEC (Some (Num 10))) Map.empty punctual
          ''https://rpc.example'' (Some ''rpc.example'') initial_metrics
          \<lparr>cuTokens = Num 0, lastRefill = 0\<rparr> 0
          (Some ''[{}]'') (Some (JArr [JObj []])) (Inr (Some [])) 600)
      = Some [\<lparr>ts = 600, cus = Num 5, endpoint = ''rpc.example''\<rparr>]"
  by (simp add: parsePayload_def weightFor_def get_property_def toPropertyKey_def
      DEFAULT_CU_WEIGHTS_def OBJECT_PROTOTYPE_def
      CU_BUDGET_PER_SEC_def instrumentedFetch_def enforceBudget_def enforceBudget_loop.simps
      refillTokens_def setTimeout_ms_def recordUsage_def initial_metrics_def endpointHost_def
      punctual_def Let_def eval_nat_numeral)

end
